theory Spec2Isabelle
  imports Complex_Main "HOL-Library.Word"
begin

section \<open>Machine model\<close>

text \<open>
  The library is C for an LP64 target.  A \<^verbatim>\<open>size_t\<close> is a 64-bit word whose arithmetic
  wraps, an \<^verbatim>\<open>int\<close> is a 32-bit word read in two's complement, a \<^verbatim>\<open>char\<close> is one byte.
  A character array is the list of its bytes; an access outside the array is undefined
  behaviour in C and is the value \<open>Inl OutOfBounds\<close> here.
\<close>

type_synonym byte = char
type_synonym size_t = "64 word"
type_synonym cint = "32 word"

datatype fault = OutOfBounds | NullPointer | DivisionByZero

definition NUL :: byte where
  "NUL = CHR 0x00"

definition SPC :: byte where
  "SPC = CHR '' ''"

text \<open>\<^verbatim>\<open>int x = <size_t value>\<close> followed by a use of \<open>x\<close> in \<^verbatim>\<open>size_t\<close> arithmetic:
  truncation to 32 bits, then sign extension.\<close>

definition via_int :: "size_t \<Rightarrow> size_t" where
  "via_int n = scast (ucast n :: cint)"

definition peek :: "byte list \<Rightarrow> size_t \<Rightarrow> fault + byte" where
  "peek b i = (if unat i < length b then Inr (b ! unat i) else Inl OutOfBounds)"

definition poke :: "byte list \<Rightarrow> size_t \<Rightarrow> byte \<Rightarrow> fault + byte list" where
  "poke b i c = (if unat i < length b then Inr (b[unat i := c]) else Inl OutOfBounds)"

text \<open>\<^verbatim>\<open>memmove(b+dst, b+src, n)\<close> inside one array.\<close>

definition memmove :: "byte list \<Rightarrow> size_t \<Rightarrow> size_t \<Rightarrow> size_t \<Rightarrow> fault + byte list" where
  "memmove b dst src n =
     (if unat src + unat n \<le> length b \<and> unat dst + unat n \<le> length b
      then Inr (take (unat dst) b @ take (unat n) (drop (unat src) b) @ drop (unat dst + unat n) b)
      else Inl OutOfBounds)"

text \<open>\<^verbatim>\<open>memcpy(b+dst, src, n)\<close> from another array.\<close>

definition memcpy :: "byte list \<Rightarrow> size_t \<Rightarrow> byte list \<Rightarrow> size_t \<Rightarrow> fault + byte list" where
  "memcpy b dst src n =
     (if unat n \<le> length src \<and> unat dst + unat n \<le> length b
      then Inr (take (unat dst) b @ take (unat n) src @ drop (unat dst + unat n) b)
      else Inl OutOfBounds)"

section \<open>Encoding functions\<close>

text \<open>
  The three function pointers \<^verbatim>\<open>prevCharLen\<close>, \<^verbatim>\<open>nextCharLen\<close>, \<^verbatim>\<open>readCode\<close> are set as a
  unit by \<^verbatim>\<open>linenoiseSetEncodingFunctions\<close>.  The two width functions are passed
  explicitly; each returns the byte length and the column length (the \<^verbatim>\<open>col_len\<close> out
  parameter) of one character.
\<close>

record encoding =
  prevCharLen :: "byte list \<Rightarrow> size_t \<Rightarrow> size_t \<Rightarrow> size_t \<times> size_t"
  nextCharLen :: "byte list \<Rightarrow> size_t \<Rightarrow> size_t \<Rightarrow> size_t \<times> size_t"

definition defaultPrevCharLen :: "byte list \<Rightarrow> size_t \<Rightarrow> size_t \<Rightarrow> size_t \<times> size_t" where
  "defaultPrevCharLen b buf_len p = (1, 1)"

definition defaultNextCharLen :: "byte list \<Rightarrow> size_t \<Rightarrow> size_t \<Rightarrow> size_t \<times> size_t" where
  "defaultNextCharLen b buf_len p = (1, 1)"

definition default_encoding :: encoding where
  "default_encoding = \<lparr>prevCharLen = defaultPrevCharLen, nextCharLen = defaultNextCharLen\<rparr>"

section \<open>The editing state\<close>

text \<open>
  \<^verbatim>\<open>struct linenoiseState\<close>.  The file descriptors, the prompt text and the two fields
  that only the multi-line renderer reads and writes (\<^verbatim>\<open>oldcolpos\<close>, \<^verbatim>\<open>maxrows\<close>) are left
  out: \<^verbatim>\<open>refreshLine\<close> writes to the terminal and to those two fields and to nothing
  else, so the editing operations below end where the source calls \<^verbatim>\<open>refreshLine\<close>.
\<close>

record linenoiseState =
  buf :: "byte list"
  buflen :: size_t
  pos :: size_t
  len :: size_t
  cols :: size_t
  history_index :: int

subsection \<open>Insertion\<close>

text \<open>
  \<^verbatim>\<open>linenoiseEditInsert(l, cbuf, clen)\<close>.  The flag \<open>werr\<close> says that the direct write of the
  fast path (cursor at the end, no hints, line fits) is taken and fails, the one case in
  which the function returns -1.
\<close>

definition linenoiseEditInsert ::
  "bool \<Rightarrow> linenoiseState \<Rightarrow> byte list \<Rightarrow> cint \<Rightarrow> fault + (cint \<times> linenoiseState)" where
  "linenoiseEditInsert werr l cbuf clen =
     (let n = (scast clen :: size_t) in
      if len l + n \<le> buflen l then
        if len l = pos l then
          (case memcpy (buf l) (pos l) cbuf n of Inl e \<Rightarrow> Inl e | Inr b \<Rightarrow>
           let l1 = l\<lparr>buf := b, pos := pos l + n, len := len l + n\<rparr> in
           (case poke (buf l1) (len l1) NUL of Inl e \<Rightarrow> Inl e | Inr b1 \<Rightarrow>
            Inr (if werr then - 1 else 0, l1\<lparr>buf := b1\<rparr>)))
        else
          (case memmove (buf l) (pos l + n) (pos l) (len l - pos l) of Inl e \<Rightarrow> Inl e | Inr b \<Rightarrow>
           (case memcpy b (pos l) cbuf n of Inl e \<Rightarrow> Inl e | Inr b1 \<Rightarrow>
            let l1 = l\<lparr>buf := b1, pos := pos l + n, len := len l + n\<rparr> in
            (case poke (buf l1) (len l1) NUL of Inl e \<Rightarrow> Inl e | Inr b2 \<Rightarrow>
             Inr (0, l1\<lparr>buf := b2\<rparr>))))
      else Inr (0, l))"

subsection \<open>Cursor motion\<close>

definition linenoiseEditMoveLeft :: "encoding \<Rightarrow> linenoiseState \<Rightarrow> linenoiseState" where
  "linenoiseEditMoveLeft enc l =
     (if 0 < pos l then l\<lparr>pos := pos l - fst (prevCharLen enc (buf l) (len l) (pos l))\<rparr> else l)"

definition linenoiseEditMoveRight :: "encoding \<Rightarrow> linenoiseState \<Rightarrow> linenoiseState" where
  "linenoiseEditMoveRight enc l =
     (if pos l \<noteq> len l then l\<lparr>pos := pos l + fst (nextCharLen enc (buf l) (len l) (pos l))\<rparr> else l)"

definition linenoiseEditMoveHome :: "linenoiseState \<Rightarrow> linenoiseState" where
  "linenoiseEditMoveHome l = (if pos l \<noteq> 0 then l\<lparr>pos := 0\<rparr> else l)"

definition linenoiseEditMoveEnd :: "linenoiseState \<Rightarrow> linenoiseState" where
  "linenoiseEditMoveEnd l = (if pos l \<noteq> len l then l\<lparr>pos := len l\<rparr> else l)"

text \<open>The word loops.  \<^verbatim>\<open>while (p < n && b[p] == ' ') ++p;\<close>\<close>

function fwd_spaces :: "byte list \<Rightarrow> size_t \<Rightarrow> size_t \<Rightarrow> fault + size_t" where
  "fwd_spaces b n p =
     (if p < n then
        (case peek b p of Inl e \<Rightarrow> Inl e
         | Inr c \<Rightarrow> if c = SPC then fwd_spaces b n (p + 1) else Inr p)
      else Inr p)"
  by pat_completeness auto
termination
  by (relation "measure (\<lambda>(b, n, p). unat n - unat p)") (auto, unat_arith)

text \<open>\<^verbatim>\<open>while (p < n && b[p] != ' ') ++p;\<close>\<close>

function fwd_word :: "byte list \<Rightarrow> size_t \<Rightarrow> size_t \<Rightarrow> fault + size_t" where
  "fwd_word b n p =
     (if p < n then
        (case peek b p of Inl e \<Rightarrow> Inl e
         | Inr c \<Rightarrow> if c \<noteq> SPC then fwd_word b n (p + 1) else Inr p)
      else Inr p)"
  by pat_completeness auto
termination
  by (relation "measure (\<lambda>(b, n, p). unat n - unat p)") (auto, unat_arith)

text \<open>\<^verbatim>\<open>while (p > 0 && b[p] == ' ') --p;\<close>\<close>

function bwd_spaces_at :: "byte list \<Rightarrow> size_t \<Rightarrow> fault + size_t" where
  "bwd_spaces_at b p =
     (if 0 < p then
        (case peek b p of Inl e \<Rightarrow> Inl e
         | Inr c \<Rightarrow> if c = SPC then bwd_spaces_at b (p - 1) else Inr p)
      else Inr p)"
  by pat_completeness auto
termination
  by (relation "measure (\<lambda>(b, p). unat p)") (auto, unat_arith)

text \<open>\<^verbatim>\<open>while (p > 0 && b[p-1] == ' ') p--;\<close>\<close>

function bwd_spaces :: "byte list \<Rightarrow> size_t \<Rightarrow> fault + size_t" where
  "bwd_spaces b p =
     (if 0 < p then
        (case peek b (p - 1) of Inl e \<Rightarrow> Inl e
         | Inr c \<Rightarrow> if c = SPC then bwd_spaces b (p - 1) else Inr p)
      else Inr p)"
  by pat_completeness auto
termination
  by (relation "measure (\<lambda>(b, p). unat p)") (auto, unat_arith)

text \<open>\<^verbatim>\<open>while (p > 0 && b[p-1] != ' ') p--;\<close>\<close>

function bwd_word :: "byte list \<Rightarrow> size_t \<Rightarrow> fault + size_t" where
  "bwd_word b p =
     (if 0 < p then
        (case peek b (p - 1) of Inl e \<Rightarrow> Inl e
         | Inr c \<Rightarrow> if c \<noteq> SPC then bwd_word b (p - 1) else Inr p)
      else Inr p)"
  by pat_completeness auto
termination
  by (relation "measure (\<lambda>(b, p). unat p)") (auto, unat_arith)

definition linenoiseEditMoveWordEnd :: "linenoiseState \<Rightarrow> fault + linenoiseState" where
  "linenoiseEditMoveWordEnd l =
     (if len l = 0 \<or> len l \<le> pos l then Inr l
      else
        (case peek (buf l) (pos l) of Inl e \<Rightarrow> Inl e | Inr c \<Rightarrow>
         (case (if c = SPC then fwd_spaces (buf l) (len l) (pos l) else Inr (pos l)) of
            Inl e \<Rightarrow> Inl e
          | Inr p1 \<Rightarrow>
            (case fwd_word (buf l) (len l) p1 of Inl e \<Rightarrow> Inl e
             | Inr p2 \<Rightarrow> Inr (l\<lparr>pos := p2\<rparr>)))))"

definition linenoiseEditMoveWordStart :: "linenoiseState \<Rightarrow> fault + linenoiseState" where
  "linenoiseEditMoveWordStart l =
     (if len l = 0 then Inr l
      else
        (case peek (buf l) (pos l - 1) of Inl e \<Rightarrow> Inl e | Inr c \<Rightarrow>
         let p1 = (if c = SPC then pos l - 1 else pos l) in
         (case peek (buf l) p1 of Inl e \<Rightarrow> Inl e | Inr c1 \<Rightarrow>
          (case (if c1 = SPC then bwd_spaces_at (buf l) p1 else Inr p1) of
             Inl e \<Rightarrow> Inl e
           | Inr p2 \<Rightarrow>
             (case bwd_word (buf l) p2 of Inl e \<Rightarrow> Inl e
              | Inr p3 \<Rightarrow> Inr (l\<lparr>pos := p3\<rparr>))))))"

subsection \<open>Deletion\<close>

definition linenoiseEditDelete :: "encoding \<Rightarrow> linenoiseState \<Rightarrow> fault + linenoiseState" where
  "linenoiseEditDelete enc l =
     (if 0 < len l \<and> pos l < len l then
        let chlen = via_int (fst (nextCharLen enc (buf l) (len l) (pos l))) in
        (case memmove (buf l) (pos l) (pos l + chlen) (len l - pos l - chlen) of
           Inl e \<Rightarrow> Inl e
         | Inr b \<Rightarrow>
           let l1 = l\<lparr>buf := b, len := len l - chlen\<rparr> in
           (case poke (buf l1) (len l1) NUL of Inl e \<Rightarrow> Inl e
            | Inr b1 \<Rightarrow> Inr (l1\<lparr>buf := b1\<rparr>)))
      else Inr l)"

definition linenoiseEditBackspace :: "encoding \<Rightarrow> linenoiseState \<Rightarrow> fault + linenoiseState" where
  "linenoiseEditBackspace enc l =
     (if 0 < pos l \<and> 0 < len l then
        let chlen = via_int (fst (prevCharLen enc (buf l) (len l) (pos l))) in
        (case memmove (buf l) (pos l - chlen) (pos l) (len l - pos l) of
           Inl e \<Rightarrow> Inl e
         | Inr b \<Rightarrow>
           let l1 = l\<lparr>buf := b, pos := pos l - chlen, len := len l - chlen\<rparr> in
           (case poke (buf l1) (len l1) NUL of Inl e \<Rightarrow> Inl e
            | Inr b1 \<Rightarrow> Inr (l1\<lparr>buf := b1\<rparr>)))
      else Inr l)"

definition linenoiseEditDeletePrevWord :: "linenoiseState \<Rightarrow> fault + linenoiseState" where
  "linenoiseEditDeletePrevWord l =
     (let old_pos = pos l in
      case bwd_spaces (buf l) (pos l) of Inl e \<Rightarrow> Inl e | Inr p1 \<Rightarrow>
      (case bwd_word (buf l) p1 of Inl e \<Rightarrow> Inl e | Inr p2 \<Rightarrow>
       let diff = old_pos - p2 in
       (case memmove (buf l) p2 old_pos (len l - old_pos + 1) of Inl e \<Rightarrow> Inl e
        | Inr b \<Rightarrow> Inr (l\<lparr>buf := b, pos := p2, len := len l - diff\<rparr>))))"

definition linenoiseEditDeleteNextWord :: "linenoiseState \<Rightarrow> fault + linenoiseState" where
  "linenoiseEditDeleteNextWord l =
     (case fwd_spaces (buf l) (len l) (pos l) of Inl e \<Rightarrow> Inl e | Inr e1 \<Rightarrow>
      (case fwd_word (buf l) (len l) e1 of Inl e \<Rightarrow> Inl e | Inr next_word_end \<Rightarrow>
       (case memmove (buf l) (pos l) next_word_end (len l - next_word_end) of Inl e \<Rightarrow> Inl e
        | Inr b \<Rightarrow> Inr (l\<lparr>buf := b, len := len l - (next_word_end - pos l)\<rparr>))))"

text \<open>The three edits written inline in the \<^verbatim>\<open>switch\<close> of \<^verbatim>\<open>linenoiseEdit\<close>:
  \<^verbatim>\<open>CTRL_T\<close> (transpose), \<^verbatim>\<open>CTRL_U\<close> (delete the whole line), \<^verbatim>\<open>CTRL_K\<close> (delete to the
  end of the line).\<close>

definition case_CTRL_T :: "linenoiseState \<Rightarrow> fault + linenoiseState" where
  "case_CTRL_T l =
     (if 0 < pos l \<and> pos l < len l then
        (case peek (buf l) (pos l - 1) of Inl e \<Rightarrow> Inl e | Inr aux \<Rightarrow>
         (case peek (buf l) (pos l) of Inl e \<Rightarrow> Inl e | Inr c \<Rightarrow>
          (case poke (buf l) (pos l - 1) c of Inl e \<Rightarrow> Inl e | Inr b \<Rightarrow>
           (case poke b (pos l) aux of Inl e \<Rightarrow> Inl e | Inr b1 \<Rightarrow>
            Inr (l\<lparr>buf := b1, pos := (if pos l \<noteq> len l - 1 then pos l + 1 else pos l)\<rparr>)))))
      else Inr l)"

definition case_CTRL_U :: "linenoiseState \<Rightarrow> fault + linenoiseState" where
  "case_CTRL_U l =
     (case poke (buf l) 0 NUL of Inl e \<Rightarrow> Inl e
      | Inr b \<Rightarrow> Inr (l\<lparr>buf := b, pos := 0, len := 0\<rparr>))"

definition case_CTRL_K :: "linenoiseState \<Rightarrow> fault + linenoiseState" where
  "case_CTRL_K l =
     (case poke (buf l) (pos l) NUL of Inl e \<Rightarrow> Inl e
      | Inr b \<Rightarrow> Inr (l\<lparr>buf := b, len := pos l\<rparr>))"



subsection \<open>Sessions\<close>

text \<open>
  The prologue of \<^verbatim>\<open>linenoiseEdit(stdin_fd, stdout_fd, buf, buflen, prompt)\<close>: the caller's
  array \<open>b\<close> of \<open>n\<close> bytes becomes an empty line, and one byte of it is kept for the
  terminator (\<^verbatim>\<open>l.buflen--\<close>).  The third argument is the value of \<^verbatim>\<open>getColumns\<close>.
\<close>

definition linenoiseEdit_init :: "byte list \<Rightarrow> size_t \<Rightarrow> size_t \<Rightarrow> fault + linenoiseState" where
  "linenoiseEdit_init b n c =
     (case poke b 0 NUL of Inl e \<Rightarrow> Inl e
      | Inr b1 \<Rightarrow> Inr \<lparr>buf = b1, buflen = n - 1, pos = 0, len = 0, cols = c, history_index = 0\<rparr>)"

text \<open>The editing operations as values, and a run of them from a state.  An \<open>Insert\<close>
  carries the write flag, the bytes read and their count.\<close>

datatype edit_op =
    Insert bool "byte list" cint
  | Delete
  | Backspace
  | MoveLeft
  | MoveRight
  | MoveHome
  | MoveEnd
  | MoveWordEnd
  | MoveWordStart

fun apply_op :: "encoding \<Rightarrow> linenoiseState \<Rightarrow> edit_op \<Rightarrow> fault + linenoiseState" where
  "apply_op enc l (Insert werr cbuf clen) =
     (case linenoiseEditInsert werr l cbuf clen of Inl e \<Rightarrow> Inl e | Inr (rc, l') \<Rightarrow> Inr l')"
| "apply_op enc l Delete = linenoiseEditDelete enc l"
| "apply_op enc l Backspace = linenoiseEditBackspace enc l"
| "apply_op enc l MoveLeft = Inr (linenoiseEditMoveLeft enc l)"
| "apply_op enc l MoveRight = Inr (linenoiseEditMoveRight enc l)"
| "apply_op enc l MoveHome = Inr (linenoiseEditMoveHome l)"
| "apply_op enc l MoveEnd = Inr (linenoiseEditMoveEnd l)"
| "apply_op enc l MoveWordEnd = linenoiseEditMoveWordEnd l"
| "apply_op enc l MoveWordStart = linenoiseEditMoveWordStart l"

fun run_ops :: "encoding \<Rightarrow> linenoiseState \<Rightarrow> edit_op list \<Rightarrow> fault + linenoiseState" where
  "run_ops enc l [] = Inr l"
| "run_ops enc l (x # xs) =
     (case apply_op enc l x of Inl e \<Rightarrow> Inl e | Inr l' \<Rightarrow> run_ops enc l' xs)"

text \<open>
  The invariant of a session: the cursor is inside the line, the line leaves room for
  its terminator, the array has \<^verbatim>\<open>buflen + 1\<close> bytes and is no larger than an object can
  be (\<^verbatim>\<open>PTRDIFF_MAX\<close>).
\<close>

definition wf :: "linenoiseState \<Rightarrow> bool" where
  "wf l \<longleftrightarrow> pos l \<le> len l \<and> len l \<le> buflen l \<and> length (buf l) = unat (buflen l) + 1
     \<and> unat (buflen l) < 2 ^ 63"

text \<open>
  What the editing operations need of replaced encoding functions: the character after
  the cursor ends inside the line, the character before it starts inside the line, and a
  byte length fits the \<^verbatim>\<open>int\<close> it is stored in.
\<close>

definition enc_ok :: "encoding \<Rightarrow> bool" where
  "enc_ok enc \<longleftrightarrow>
     (\<forall>b n p. p < n \<longrightarrow> unat (fst (nextCharLen enc b n p)) \<le> unat n - unat p
                    \<and> unat (fst (nextCharLen enc b n p)) < 2 ^ 31) \<and>
     (\<forall>b n p. 0 < p \<and> p \<le> n \<longrightarrow> unat (fst (prevCharLen enc b n p)) \<le> unat p
                    \<and> unat (fst (prevCharLen enc b n p)) < 2 ^ 31)"

text \<open>An \<open>Insert\<close> is called with the \<open>clen \<ge> 0\<close> bytes that \<^verbatim>\<open>readCode\<close> stored in
  \<open>cbuf\<close>.\<close>

fun op_ok :: "edit_op \<Rightarrow> bool" where
  "op_ok (Insert werr cbuf clen) = (0 \<le> sint clen \<and> nat (sint clen) \<le> length cbuf)"
| "op_ok _ = True"

text \<open>A sequence of operations on an array of four bytes: the third Insert finds the line
  full.\<close>

definition demo_ops :: "edit_op list" where
  "demo_ops = [Insert False ''ab'' 2, MoveLeft, Insert False ''c'' 1, Insert False ''d'' 1,
     Backspace, MoveHome, Delete, MoveWordEnd, MoveEnd, MoveRight]"

subsection \<open>Sample states and predicates\<close>

text \<open>A session on an array of two bytes: empty, and full with the line \<^verbatim>\<open>"a"\<close>.\<close>

definition line_empty_2 :: linenoiseState where
  "line_empty_2 = \<lparr>buf = [NUL, CHR ''y''], buflen = 1, pos = 0, len = 0, cols = 80,
     history_index = 0\<rparr>"

definition line_a_full :: linenoiseState where
  "line_a_full = \<lparr>buf = [CHR ''a'', NUL], buflen = 1, pos = 1, len = 1, cols = 80, history_index = 0\<rparr>"

text \<open>The line \<^verbatim>\<open>"a"\<close> with the cursor at its start.\<close>

definition line_a_home :: linenoiseState where
  "line_a_home = \<lparr>buf = [CHR ''a'', NUL], buflen = 1, pos = 0, len = 1, cols = 80, history_index = 0\<rparr>"

text \<open>The line \<^verbatim>\<open>"ab cd"\<close> with the cursor at its start.\<close>

definition line_ab_cd :: linenoiseState where
  "line_ab_cd = \<lparr>buf = ''ab cd'' @ [NUL], buflen = 5, pos = 0, len = 5, cols = 80, history_index = 0\<rparr>"

text \<open>The line \<^verbatim>\<open>"ac"\<close> in an array of four bytes, cursor between the two letters.\<close>

definition line_ac :: linenoiseState where
  "line_ac = \<lparr>buf = [CHR ''a'', CHR ''c'', NUL, CHR ''x''], buflen = 3, pos = 1, len = 2,
     cols = 80, history_index = 0\<rparr>"

text \<open>The line is terminated: \<^verbatim>\<open>buf[len] == 0\<close>.\<close>

definition nul_terminated :: "linenoiseState \<Rightarrow> bool" where
  "nul_terminated l \<longleftrightarrow> peek (buf l) (len l) = Inr NUL"

section \<open>History\<close>

text \<open>
  The globals \<^verbatim>\<open>history\<close>, \<^verbatim>\<open>history_len\<close>, \<^verbatim>\<open>history_max_len\<close>.  \<^verbatim>\<open>history\<close> is \<^verbatim>\<open>NULL\<close>
  (\<open>None\<close>) or an array of \<^verbatim>\<open>char *\<close>, each \<^verbatim>\<open>NULL\<close> or a string; a string is the list of
  its bytes before the terminator.  The two \<^verbatim>\<open>int\<close>s are counts: in a store that satisfies
  \<open>hist_wf\<close> below no operation on them leaves the range of \<^verbatim>\<open>int\<close>, and they are
  integers here.
\<close>

type_synonym cstring = "byte list"

record hist =
  history :: "cstring option list option"
  history_len :: int
  history_max_len :: int

text \<open>\<^verbatim>\<open>a[i]\<close> and \<^verbatim>\<open>a[i] = v\<close> on an array of pointers.\<close>

definition slot :: "'a list \<Rightarrow> int \<Rightarrow> fault + 'a" where
  "slot a i = (if 0 \<le> i \<and> i < int (length a) then Inr (a ! nat i) else Inl OutOfBounds)"

definition set_slot :: "'a list \<Rightarrow> int \<Rightarrow> 'a \<Rightarrow> fault + 'a list" where
  "set_slot a i v = (if 0 \<le> i \<and> i < int (length a) then Inr (a[nat i := v]) else Inl OutOfBounds)"

text \<open>
  \<^verbatim>\<open>linenoiseHistoryAdd(line)\<close>.  \<open>malloc_ok\<close> and \<open>strdup_ok\<close> say whether the two
  allocations succeed; a request for a negative number of slots is a request for more
  than the address space and fails.  A full array is shifted by a \<^verbatim>\<open>memmove\<close> of
  \<^verbatim>\<open>history_max_len - 1\<close> pointers.
\<close>

definition linenoiseHistoryAdd :: "bool \<Rightarrow> bool \<Rightarrow> cstring \<Rightarrow> hist \<Rightarrow> fault + (int \<times> hist)" where
  "linenoiseHistoryAdd malloc_ok strdup_ok line h =
     (if history_max_len h = 0 then Inr (0, h)
      else
        (case (case history h of
                 None \<Rightarrow>
                   if malloc_ok \<and> 0 \<le> history_max_len h
                   then Some (replicate (nat (history_max_len h)) None) else None
               | Some a \<Rightarrow> Some a) of
           None \<Rightarrow> Inr (0, h)
         | Some a \<Rightarrow>
           (case (if history_len h \<noteq> 0 then
                    (case slot a (history_len h - 1) of Inl e \<Rightarrow> Inl e
                     | Inr None \<Rightarrow> Inl NullPointer
                     | Inr (Some s) \<Rightarrow> Inr (s = line))
                  else Inr False) of
              Inl e \<Rightarrow> Inl e
            | Inr True \<Rightarrow> Inr (0, h\<lparr>history := Some a\<rparr>)
            | Inr False \<Rightarrow>
              if \<not> strdup_ok then Inr (0, h\<lparr>history := Some a\<rparr>)
              else
                (case (if history_len h = history_max_len h then
                         (case slot a 0 of Inl e \<Rightarrow> Inl e
                          | Inr old \<Rightarrow>
                            if 1 \<le> history_max_len h \<and> history_max_len h \<le> int (length a)
                            then Inr (take (nat (history_max_len h - 1)) (drop 1 a)
                                        @ drop (nat (history_max_len h - 1)) a,
                                      history_len h - 1)
                            else Inl OutOfBounds)
                       else Inr (a, history_len h)) of
                   Inl e \<Rightarrow> Inl e
                 | Inr (a1, n1) \<Rightarrow>
                   (case set_slot a1 n1 (Some line) of Inl e \<Rightarrow> Inl e
                    | Inr a2 \<Rightarrow>
                      Inr (1, h\<lparr>history := Some a2, history_len := n1 + 1\<rparr>))))))"

text \<open>\<^verbatim>\<open>linenoiseHistorySetMaxLen(len)\<close>; the argument is called \<open>n\<close>.\<close>

definition linenoiseHistorySetMaxLen :: "bool \<Rightarrow> int \<Rightarrow> hist \<Rightarrow> fault + (int \<times> hist)" where
  "linenoiseHistorySetMaxLen malloc_ok n h =
     (if n < 1 then Inr (0, h)
      else
        (case (case history h of
                 None \<Rightarrow> Inr (Some None)
               | Some a \<Rightarrow>
                 if \<not> malloc_ok then Inr None
                 else
                   let tocopy = (if n < history_len h then n else history_len h) in
                   if 0 \<le> tocopy \<and> history_len h \<le> int (length a)
                   then Inr (Some (Some (take (nat tocopy) (drop (nat (history_len h - tocopy)) a)
                                          @ replicate (nat (n - tocopy)) None)))
                   else Inl OutOfBounds) of
           Inl e \<Rightarrow> Inl e
         | Inr None \<Rightarrow> Inr (0, h)
         | Inr (Some a') \<Rightarrow>
           let h1 = h\<lparr>history := a', history_max_len := n\<rparr> in
           Inr (1, if history_max_len h1 < history_len h1
                   then h1\<lparr>history_len := history_max_len h1\<rparr> else h1)))"

text \<open>The initial values of the three globals.\<close>

definition hist_init :: hist where
  "hist_init = \<lparr>history = None, history_len = 0, history_max_len = 100\<rparr>"

text \<open>A well-formed store: the array, once allocated, has \<^verbatim>\<open>history_max_len\<close> slots, the
  first \<^verbatim>\<open>history_len\<close> of them hold strings.\<close>

definition hist_wf :: "hist \<Rightarrow> bool" where
  "hist_wf h \<longleftrightarrow>
     0 \<le> history_len h \<and> history_len h \<le> history_max_len h \<and>
     (case history h of
        None \<Rightarrow> history_len h = 0
      | Some a \<Rightarrow> int (length a) = history_max_len h
                  \<and> list_all (\<lambda>p. p \<noteq> None) (take (nat (history_len h)) a))"

text \<open>The entries of a store, oldest first.\<close>

definition entries :: "hist \<Rightarrow> cstring list" where
  "entries h = (case history h of None \<Rightarrow> []
                | Some a \<Rightarrow> map the (take (nat (history_len h)) a))"

text \<open>Adding several lines in turn, every allocation succeeding.\<close>

fun history_adds :: "hist \<Rightarrow> cstring list \<Rightarrow> fault + hist" where
  "history_adds h [] = Inr h"
| "history_adds h (x # xs) =
     (case linenoiseHistoryAdd True True x h of Inl e \<Rightarrow> Inl e
      | Inr (r, h') \<Rightarrow> history_adds h' xs)"

definition full_store :: hist where
  "full_store = \<lparr>history = Some [Some ''x'', Some ''y''], history_len = 2, history_max_len = 2\<rparr>"

subsection \<open>History navigation\<close>

text \<open>
  The C string stored in an array: the bytes before the first terminator.  Without a
  terminator \<^verbatim>\<open>strlen\<close> and \<^verbatim>\<open>strdup\<close> read past the array.
\<close>

definition c_str :: "byte list \<Rightarrow> fault + cstring" where
  "c_str b = (if NUL \<in> set b then Inr (takeWhile (\<lambda>c. c \<noteq> NUL) b) else Inl OutOfBounds)"

definition strlen :: "byte list \<Rightarrow> fault + size_t" where
  "strlen b = (case c_str b of Inl e \<Rightarrow> Inl e | Inr s \<Rightarrow> Inr (of_nat (length s)))"

text \<open>\<^verbatim>\<open>strdup\<close> returns \<^verbatim>\<open>NULL\<close> when the allocation fails.\<close>

definition strdup :: "bool \<Rightarrow> byte list \<Rightarrow> fault + cstring option" where
  "strdup ok b = (case c_str b of Inl e \<Rightarrow> Inl e | Inr s \<Rightarrow> Inr (if ok then Some s else None))"

text \<open>\<^verbatim>\<open>strncpy(dst, src, n)\<close> writes exactly \<open>n\<close> bytes: the string, cut or padded with
  terminators.\<close>

definition strncpy :: "byte list \<Rightarrow> cstring \<Rightarrow> size_t \<Rightarrow> fault + byte list" where
  "strncpy dst src n =
     (if unat n \<le> length dst
      then Inr (take (unat n) (src @ replicate (unat n) NUL) @ drop (unat n) dst)
      else Inl OutOfBounds)"

definition LINENOISE_HISTORY_NEXT :: int where
  "LINENOISE_HISTORY_NEXT = 0"

definition LINENOISE_HISTORY_PREV :: int where
  "LINENOISE_HISTORY_PREV = 1"

text \<open>\<^verbatim>\<open>linenoiseEditHistoryNext(l, dir)\<close>, on the history globals and the editing state.\<close>

definition linenoiseEditHistoryNext ::
  "bool \<Rightarrow> hist \<times> linenoiseState \<Rightarrow> int \<Rightarrow> fault + (hist \<times> linenoiseState)" where
  "linenoiseEditHistoryNext strdup_ok hl dir =
     (case hl of (h, l) \<Rightarrow>
      if 1 < history_len h then
        (case history h of None \<Rightarrow> Inl NullPointer | Some a \<Rightarrow>
         (case slot a (history_len h - 1 - history_index l) of Inl e \<Rightarrow> Inl e | Inr old \<Rightarrow>
          (case strdup strdup_ok (buf l) of Inl e \<Rightarrow> Inl e | Inr copy \<Rightarrow>
           (case set_slot a (history_len h - 1 - history_index l) copy of Inl e \<Rightarrow> Inl e
            | Inr a1 \<Rightarrow>
              let h1 = h\<lparr>history := Some a1\<rparr>;
                  hi = history_index l + (if dir = LINENOISE_HISTORY_PREV then 1 else - 1)
              in
              if hi < 0 then Inr (h1, l\<lparr>history_index := 0\<rparr>)
              else if history_len h \<le> hi then Inr (h1, l\<lparr>history_index := history_len h - 1\<rparr>)
              else
                (case slot a1 (history_len h - 1 - hi) of Inl e \<Rightarrow> Inl e
                 | Inr None \<Rightarrow> Inl NullPointer
                 | Inr (Some src) \<Rightarrow>
                   (case strncpy (buf l) src (buflen l) of Inl e \<Rightarrow> Inl e | Inr b1 \<Rightarrow>
                    (case poke b1 (buflen l - 1) NUL of Inl e \<Rightarrow> Inl e | Inr b2 \<Rightarrow>
                     (case strlen b2 of Inl e \<Rightarrow> Inl e
                      | Inr n \<Rightarrow>
                        Inr (h1, l\<lparr>buf := b2, history_index := hi, len := n, pos := n\<rparr>)))))))))
      else Inr (h, l))"

text \<open>A sequence of navigation keys.\<close>

fun navigate :: "hist \<times> linenoiseState \<Rightarrow> int list \<Rightarrow> fault + (hist \<times> linenoiseState)" where
  "navigate hl [] = Inr hl"
| "navigate hl (d # ds) =
     (case linenoiseEditHistoryNext True hl d of Inl e \<Rightarrow> Inl e | Inr hl' \<Rightarrow> navigate hl' ds)"

text \<open>
  The store and the line of C9 in the library's own sizes.  The store is the one left by
  \<^verbatim>\<open>linenoiseHistoryAdd("a")\<close>, \<^verbatim>\<open>linenoiseHistoryAdd("b")\<close> and the
  \<^verbatim>\<open>linenoiseHistoryAdd("")\<close> with which \<^verbatim>\<open>linenoiseEdit\<close> begins: three entries in an
  array of 100 slots, the newest the empty string.  The line is \<^verbatim>\<open>"c"\<close>, typed since, in an
  array of \<^verbatim>\<open>LINENOISE_MAX_LINE\<close> = 4096 bytes.
\<close>

definition nav_hist :: hist where
  "nav_hist = \<lparr>history = Some ([Some ''a'', Some ''b'', Some []] @ replicate 97 None),
     history_len = 3, history_max_len = 100\<rparr>"

definition nav_state :: linenoiseState where
  "nav_state = \<lparr>buf = ''c'' @ replicate 4095 NUL, buflen = 4095, pos = 1, len = 1, cols = 80,
     history_index = 0\<rparr>"

section \<open>Rendering\<close>

text \<open>
  Of the two refresh functions the parts that compute positions are modelled: the
  column functions, the two clipping loops of \<^verbatim>\<open>refreshSingleLine\<close> and the row count of
  \<^verbatim>\<open>refreshMultiLine\<close>.  With replaced encoding functions the loops need not end, so
  they return an option: \<open>None\<close> is a loop that runs forever.
\<close>

text \<open>\<^verbatim>\<open>columnPos(buf, buf_len, pos)\<close>; the loop carries \<open>off\<close> and \<open>ret\<close>.\<close>

partial_function (option) columnPos_loop ::
  "encoding \<Rightarrow> byte list \<Rightarrow> size_t \<Rightarrow> size_t \<Rightarrow> size_t \<Rightarrow> size_t \<Rightarrow> size_t option" where
  "columnPos_loop enc b buf_len p off ret =
     (if off < p then
        columnPos_loop enc b buf_len p (off + fst (nextCharLen enc b buf_len off))
          (ret + snd (nextCharLen enc b buf_len off))
      else Some ret)"

declare columnPos_loop.simps [code]

definition columnPos :: "encoding \<Rightarrow> byte list \<Rightarrow> size_t \<Rightarrow> size_t \<Rightarrow> size_t option" where
  "columnPos enc b buf_len p = columnPos_loop enc b buf_len p 0 0"




text \<open>
  The first loop of \<^verbatim>\<open>refreshSingleLine\<close>, on the local \<^verbatim>\<open>buf\<close>, \<^verbatim>\<open>len\<close>, \<^verbatim>\<open>pos\<close>; the
  advanced pointer \<^verbatim>\<open>buf\<close> is the array with its first bytes dropped.  \<open>pcollen\<close> is the
  value of \<^verbatim>\<open>promptTextColumnLen\<close>.
\<close>

partial_function (option) clip_left ::
  "encoding \<Rightarrow> size_t \<Rightarrow> size_t \<Rightarrow> byte list \<Rightarrow> size_t \<Rightarrow> size_t
     \<Rightarrow> (byte list \<times> size_t \<times> size_t) option" where
  "clip_left enc pcollen cls b n p =
     Option.bind (columnPos enc b n p) (\<lambda>c.
       if cls \<le> pcollen + c then
         clip_left enc pcollen cls
           (drop (unat (via_int (fst (nextCharLen enc b n 0)))) b)
           (n - via_int (fst (nextCharLen enc b n 0)))
           (p - via_int (fst (nextCharLen enc b n 0)))
       else Some (b, n, p))"

declare clip_left.simps [code]

text \<open>The second loop, on \<^verbatim>\<open>len\<close>.\<close>

partial_function (option) clip_right ::
  "encoding \<Rightarrow> size_t \<Rightarrow> size_t \<Rightarrow> byte list \<Rightarrow> size_t \<Rightarrow> size_t option" where
  "clip_right enc pcollen cls b n =
     Option.bind (columnPos enc b n n) (\<lambda>c.
       if cls < pcollen + c then clip_right enc pcollen cls b (n - fst (prevCharLen enc b n n))
       else Some n)"

declare clip_right.simps [code]

text \<open>Both loops: the window \<^verbatim>\<open>buf\<close>, \<^verbatim>\<open>len\<close>, \<^verbatim>\<open>pos\<close> that is written to the terminal.\<close>

definition refreshSingleLine_window ::
  "encoding \<Rightarrow> size_t \<Rightarrow> linenoiseState \<Rightarrow> (byte list \<times> size_t \<times> size_t) option" where
  "refreshSingleLine_window enc pcollen l =
     Option.bind (clip_left enc pcollen (cols l) (buf l) (len l) (pos l)) (\<lambda>(b, n, p).
       Option.bind (clip_right enc pcollen (cols l) b n) (\<lambda>n'. Some (b, n', p)))"


text \<open>An encoding with characters of three bytes and two columns, as UTF-8 encodes the
  wide characters of East Asian scripts.\<close>

definition wide_encoding :: encoding where
  "wide_encoding = \<lparr>prevCharLen = (\<lambda>b n p. (3, 2)), nextCharLen = (\<lambda>b n p. (3, 2))\<rparr>"

definition line_of :: "byte list \<Rightarrow> size_t \<Rightarrow> size_t \<Rightarrow> linenoiseState" where
  "line_of s p c = \<lparr>buf = s @ [NUL], buflen = of_nat (length s), pos = p, len = of_nat (length s),
     cols = c, history_index = 0\<rparr>"

text \<open>
  A line as its characters, each with its byte length and its column width, to state
  what the clipping loops leave when a character is longer or wider than one byte.
\<close>

definition bytes_of :: "(nat \<times> nat) list \<Rightarrow> nat" where
  "bytes_of cs = sum_list (map fst cs)"

definition width_of :: "(nat \<times> nat) list \<Rightarrow> nat" where
  "width_of cs = sum_list (map snd cs)"

text \<open>All the ways to cut a list in two.\<close>

definition splits :: "'a list \<Rightarrow> ('a list \<times> 'a list) list" where
  "splits xs = map (\<lambda>i. (take i xs, drop i xs)) [0..<Suc (length xs)]"

text \<open>
  The encoding functions read the array \<open>b\<close> as the characters \<open>cs\<close>, from whichever
  character a window starts and at whichever it ends: at the start of a character
  inside the window \<^verbatim>\<open>nextCharLen\<close> returns its two lengths, and at the end of the window
  \<^verbatim>\<open>prevCharLen\<close> returns the byte length of its last character.  \<open>w\<close> is the array from
  the start of the window on, as \<^verbatim>\<open>refreshSingleLine\<close> passes it.
\<close>

definition window_ok :: "encoding \<Rightarrow> byte list \<Rightarrow> (nat \<times> nat) list \<Rightarrow> bool" where
  "window_ok enc w win \<longleftrightarrow>
     list_all (\<lambda>(ys, r). case r of [] \<Rightarrow> True
                 | c # zs \<Rightarrow> nextCharLen enc w (of_nat (bytes_of win)) (of_nat (bytes_of ys)) =
                              (of_nat (fst c), of_nat (snd c)))
       (splits win) \<and>
     (case rev win of [] \<Rightarrow> True
      | c # zs \<Rightarrow> fst (prevCharLen enc w (of_nat (bytes_of win)) (of_nat (bytes_of win))) =
                   of_nat (fst c))"

definition reads_chars :: "encoding \<Rightarrow> byte list \<Rightarrow> (nat \<times> nat) list \<Rightarrow> bool" where
  "reads_chars enc b cs \<longleftrightarrow>
     list_all (\<lambda>(xs, rest).
       list_all (\<lambda>(win, ws). window_ok enc (drop (bytes_of xs) b) win) (splits rest))
       (splits cs)"

text \<open>
  Encoding functions as an application registers them with
  \<^verbatim>\<open>linenoiseSetEncodingFunctions\<close>, for UTF-8 text made of ASCII characters and of wide
  characters in three bytes: a byte from \<^verbatim>\<open>0xE0\<close> on begins a character of three bytes and
  two columns, and a byte from \<^verbatim>\<open>0x80\<close> on before the position ends one.
\<close>

definition utf8_3_encoding :: encoding where
  "utf8_3_encoding =
     \<lparr>prevCharLen = (\<lambda>b n p. if 3 \<le> unat p \<and> unat p \<le> length b
                                  \<and> 128 \<le> (of_char (b ! (unat p - 1)) :: nat)
                               then (3, 2) else (1, 1)),
      nextCharLen = (\<lambda>b n p. if unat p < length b \<and> 224 \<le> (of_char (b ! unat p) :: nat)
                               then (3, 2) else (1, 1))\<rparr>"

text \<open>
  A line of twelve bytes and nine columns: the letters \<^verbatim>\<open>a\<close>, \<^verbatim>\<open>b\<close>, \<^verbatim>\<open>c\<close>, each followed by a
  wide character (U+3042, U+3044, U+3046).  Its characters before and after byte 8.
\<close>

definition mixed_line :: "byte list" where
  "mixed_line = [CHR ''a'', CHR 0xE3, CHR 0x81, CHR 0x82, CHR ''b'', CHR 0xE3, CHR 0x81, CHR 0x84,
     CHR ''c'', CHR 0xE3, CHR 0x81, CHR 0x86]"

definition mixed_pre :: "(nat \<times> nat) list" where
  "mixed_pre = [(1, 1), (3, 2), (1, 1), (3, 2)]"

definition mixed_post :: "(nat \<times> nat) list" where
  "mixed_post = [(1, 1), (3, 2)]"

section \<open>The key decoder\<close>

text \<open>
  The input stream is the list of results of the \<^verbatim>\<open>read(fd, p, 1)\<close> calls to come: a byte,
  or an error (\<^verbatim>\<open>read\<close> returns -1).  At the end of the list \<^verbatim>\<open>read\<close> returns 0.
\<close>

datatype rd = Byte byte | ReadError

fun read1 :: "rd list \<Rightarrow> int \<times> byte option \<times> rd list" where
  "read1 [] = (0, None, [])"
| "read1 (ReadError # r) = (- 1, None, r)"
| "read1 (Byte c # r) = (1, Some c, r)"

text \<open>
  What the decoder takes from its environment: the multi-line flag, the column width of
  the prompt (the value of \<^verbatim>\<open>promptTextColumnLen\<close>), whether the write of the prompt and
  the direct write of Insert fail, whether allocations succeed, and the indeterminate
  initial bytes of the local array \<^verbatim>\<open>seq\<close> (a \<^verbatim>\<open>read\<close> that returns 0 leaves them in place).
  No completion or hints callback is registered (\<^verbatim>\<open>completionCallback\<close> and
  \<^verbatim>\<open>hintsCallback\<close> are \<^verbatim>\<open>NULL\<close>, their initial value) and \<^verbatim>\<open>readCode\<close> is
  \<^verbatim>\<open>defaultReadCode\<close>.
\<close>

record env =
  mlmode :: bool
  prompt_cols :: size_t
  prompt_write_fails :: bool
  insert_write_fails :: bool
  malloc_ok :: bool
  strdup_ok :: bool
  seq_init :: "byte \<times> byte \<times> byte"

text \<open>
  The flag of \<^verbatim>\<open>linenoiseEditInsert\<close> in an environment.  The direct write is in the
  branch for the cursor at the end of a line with room, behind the test
  \<^verbatim>\<open>!mlmode && promptTextColumnLen(...)+columnPos(l->buf,l->len,l->len) < l->cols\<close>, which is
  made on the line as updated; the flag is set when the test holds and the write fails.
  \<^verbatim>\<open>columnPos\<close> is not called in multi-line mode; where it is called it need not return.
\<close>

definition insert_write_error ::
  "encoding \<Rightarrow> env \<Rightarrow> linenoiseState \<Rightarrow> byte list \<Rightarrow> cint \<Rightarrow> bool option" where
  "insert_write_error enc ev l cbuf clen =
     (if len l + scast clen \<le> buflen l \<and> len l = pos l \<and> \<not> mlmode ev then
        (case linenoiseEditInsert False l cbuf clen of
           Inl e \<Rightarrow> Some False
         | Inr (rc, l1) \<Rightarrow>
           Option.bind (columnPos enc (buf l1) (len l1) (len l1))
             (\<lambda>c. Some (prompt_cols ev + c < cols l1 \<and> insert_write_fails ev)))
      else Some False)"

text \<open>One turn of the \<^verbatim>\<open>while(1)\<close> loop either goes on or returns from \<^verbatim>\<open>linenoiseEdit\<close>.\<close>

datatype outcome =
    Continue hist linenoiseState "rd list"
  | Return cint hist linenoiseState "rd list"

text \<open>\<^verbatim>\<open>enum KEY_ACTION\<close>, as the values of the bytes.\<close>

definition CTRL_A :: nat where "CTRL_A = 1"
definition CTRL_B :: nat where "CTRL_B = 2"
definition CTRL_C :: nat where "CTRL_C = 3"
definition CTRL_D :: nat where "CTRL_D = 4"
definition CTRL_E :: nat where "CTRL_E = 5"
definition CTRL_F :: nat where "CTRL_F = 6"
definition CTRL_H :: nat where "CTRL_H = 8"
definition TAB :: nat where "TAB = 9"
definition LINE_FEED :: nat where "LINE_FEED = 10"
definition CTRL_K :: nat where "CTRL_K = 11"
definition CTRL_L :: nat where "CTRL_L = 12"
definition ENTER :: nat where "ENTER = 13"
definition CTRL_N :: nat where "CTRL_N = 14"
definition CTRL_P :: nat where "CTRL_P = 16"
definition CTRL_T :: nat where "CTRL_T = 20"
definition CTRL_U :: nat where "CTRL_U = 21"
definition CTRL_W :: nat where "CTRL_W = 23"
definition ESC :: nat where "ESC = 27"
definition BACKSPACE :: nat where "BACKSPACE = 127"

text \<open>An editing function applied to the state of the loop.\<close>

definition on_line ::
  "(linenoiseState \<Rightarrow> fault + linenoiseState) \<Rightarrow> hist \<Rightarrow> linenoiseState \<Rightarrow> rd list
     \<Rightarrow> fault + outcome" where
  "on_line f h l inp = (case f l of Inl e \<Rightarrow> Inl e | Inr l' \<Rightarrow> Inr (Continue h l' inp))"

definition on_history ::
  "bool \<Rightarrow> int \<Rightarrow> hist \<Rightarrow> linenoiseState \<Rightarrow> rd list \<Rightarrow> fault + outcome" where
  "on_history ok dir h l inp =
     (case linenoiseEditHistoryNext ok (h, l) dir of Inl e \<Rightarrow> Inl e
      | Inr (h', l') \<Rightarrow> Inr (Continue h' l' inp))"

text \<open>\<^verbatim>\<open>history_len--; free(history[history_len]);\<close>\<close>

definition drop_newest :: "hist \<Rightarrow> fault + hist" where
  "drop_newest h =
     (case history h of None \<Rightarrow> Inl NullPointer
      | Some a \<Rightarrow>
        (case slot a (history_len h - 1) of Inl e \<Rightarrow> Inl e
         | Inr p \<Rightarrow> Inr (h\<lparr>history_len := history_len h - 1\<rparr>)))"

text \<open>
  \<^verbatim>\<open>case ESC\<close>.  \<open>s0\<close>, \<open>s1\<close>, \<open>s2\<close> are \<^verbatim>\<open>seq[0]\<close>, \<^verbatim>\<open>seq[1]\<close>, \<^verbatim>\<open>seq[2]\<close>.  The test that
  opens the first branch compares \<^verbatim>\<open>seq[0]\<close> with the digit \<^verbatim>\<open>'0'\<close>.
\<close>

definition case_ESC ::
  "encoding \<Rightarrow> env \<Rightarrow> hist \<Rightarrow> linenoiseState \<Rightarrow> rd list \<Rightarrow> fault + outcome" where
  "case_ESC enc ev h l inp =
     (case read1 inp of (n0, c0, inp1) \<Rightarrow>
      if n0 = - 1 then Inr (Continue h l inp1)
      else
        let s0 = (case c0 of Some c \<Rightarrow> c | None \<Rightarrow> fst (seq_init ev)) in
        if s0 \<noteq> CHR ''['' \<and> s0 \<noteq> CHR ''0'' then
          (if s0 = CHR ''f'' then on_line linenoiseEditMoveWordEnd h l inp1
           else if s0 = CHR ''b'' then on_line linenoiseEditMoveWordStart h l inp1
           else if s0 = CHR ''d'' then on_line linenoiseEditDeleteNextWord h l inp1
           else Inr (Continue h l inp1))
        else
          (case read1 inp1 of (n1, c1, inp2) \<Rightarrow>
           if n1 = - 1 then Inr (Continue h l inp2)
           else
             let s1 = (case c1 of Some c \<Rightarrow> c | None \<Rightarrow> fst (snd (seq_init ev))) in
             if s0 = CHR ''['' then
               if 48 \<le> (of_char s1 :: nat) \<and> (of_char s1 :: nat) \<le> 57 then
                 (case read1 inp2 of (n2, c2, inp3) \<Rightarrow>
                  if n2 = - 1 then Inr (Continue h l inp3)
                  else
                    let s2 = (case c2 of Some c \<Rightarrow> c | None \<Rightarrow> snd (snd (seq_init ev))) in
                    if s2 = CHR ''~'' \<and> s1 = CHR ''3''
                    then on_line (linenoiseEditDelete enc) h l inp3
                    else Inr (Continue h l inp3))
               else
                 (if s1 = CHR ''A'' then on_history (strdup_ok ev) LINENOISE_HISTORY_PREV h l inp2
                  else if s1 = CHR ''B'' then on_history (strdup_ok ev) LINENOISE_HISTORY_NEXT h l inp2
                  else if s1 = CHR ''C'' then Inr (Continue h (linenoiseEditMoveRight enc l) inp2)
                  else if s1 = CHR ''D'' then Inr (Continue h (linenoiseEditMoveLeft enc l) inp2)
                  else if s1 = CHR ''H'' then Inr (Continue h (linenoiseEditMoveHome l) inp2)
                  else if s1 = CHR ''F'' then Inr (Continue h (linenoiseEditMoveEnd l) inp2)
                  else if s1 = CHR ''d'' then on_line linenoiseEditDeleteNextWord h l inp2
                  else if s1 = CHR ''1'' then Inr (Continue h (linenoiseEditMoveHome l) inp2)
                  else if s1 = CHR ''4'' then Inr (Continue h (linenoiseEditMoveEnd l) inp2)
                  else Inr (Continue h l inp2))
             else if s0 = CHR ''O'' then
               (if s1 = CHR ''H'' then Inr (Continue h (linenoiseEditMoveHome l) inp2)
                else if s1 = CHR ''F'' then Inr (Continue h (linenoiseEditMoveEnd l) inp2)
                else Inr (Continue h l inp2))
             else Inr (Continue h l inp2)))"

text \<open>
  One turn of the loop of \<^verbatim>\<open>linenoiseEdit\<close>: \<^verbatim>\<open>readCode\<close>, then the \<^verbatim>\<open>switch\<close>.  A byte is
  compared through its value between 0 and 255; the \<^verbatim>\<open>int\<close> \<open>c\<close> of the source is negative
  for the bytes from 128 on, which are no \<^verbatim>\<open>case\<close> either way.  The turn is \<open>None\<close> when
  the \<^verbatim>\<open>columnPos\<close> called by Insert does not return.
\<close>

definition linenoiseEdit_step ::
  "encoding \<Rightarrow> env \<Rightarrow> hist \<Rightarrow> linenoiseState \<Rightarrow> rd list \<Rightarrow> (fault + outcome) option" where
  "linenoiseEdit_step enc ev h l inp =
     (case read1 inp of (nread, co, inp1) \<Rightarrow>
      (case co of
         None \<Rightarrow> Some (Inr (Return (ucast (len l)) h l inp1))
       | Some c \<Rightarrow>
         let k = (of_char c :: nat) in
         if k = LINE_FEED \<or> k = ENTER then
           Some (case drop_newest h of Inl e \<Rightarrow> Inl e
                 | Inr h1 \<Rightarrow>
                   let l1 = (if mlmode ev then linenoiseEditMoveEnd l else l) in
                   Inr (Return (ucast (len l1)) h1 l1 inp1))
         else if k = CTRL_C then Some (Inr (Return (- 1) h l inp1))
         else if k = BACKSPACE \<or> k = 8 then Some (on_line (linenoiseEditBackspace enc) h l inp1)
         else if k = CTRL_D then
           Some (if 0 < len l then on_line (linenoiseEditDelete enc) h l inp1
                 else (case drop_newest h of Inl e \<Rightarrow> Inl e
                       | Inr h1 \<Rightarrow> Inr (Return (- 1) h1 l inp1)))
         else if k = CTRL_T then Some (on_line case_CTRL_T h l inp1)
         else if k = CTRL_B then Some (Inr (Continue h (linenoiseEditMoveLeft enc l) inp1))
         else if k = CTRL_F then Some (Inr (Continue h (linenoiseEditMoveRight enc l) inp1))
         else if k = CTRL_P then Some (on_history (strdup_ok ev) LINENOISE_HISTORY_PREV h l inp1)
         else if k = CTRL_N then Some (on_history (strdup_ok ev) LINENOISE_HISTORY_NEXT h l inp1)
         else if k = ESC then Some (case_ESC enc ev h l inp1)
         else if k = CTRL_U then Some (on_line case_CTRL_U h l inp1)
         else if k = CTRL_K then Some (on_line case_CTRL_K h l inp1)
         else if k = CTRL_A then Some (Inr (Continue h (linenoiseEditMoveHome l) inp1))
         else if k = CTRL_E then Some (Inr (Continue h (linenoiseEditMoveEnd l) inp1))
         else if k = CTRL_L then Some (Inr (Continue h l inp1))
         else if k = CTRL_W then Some (on_line linenoiseEditDeletePrevWord h l inp1)
         else
           Option.bind (insert_write_error enc ev l [c] 1) (\<lambda>werr.
             Some (case linenoiseEditInsert werr l [c] 1 of Inl e \<Rightarrow> Inl e
                   | Inr (rc, l') \<Rightarrow>
                     if rc \<noteq> 0 then Inr (Return (- 1) h l' inp1)
                     else Inr (Continue h l' inp1)))))"

text \<open>The loop; \<open>None\<close> is a loop that never returns.\<close>

partial_function (option) linenoiseEdit_loop ::
  "encoding \<Rightarrow> env \<Rightarrow> hist \<Rightarrow> linenoiseState \<Rightarrow> rd list \<Rightarrow> (fault + outcome) option" where
  "linenoiseEdit_loop enc ev h l inp =
     (case linenoiseEdit_step enc ev h l inp of
        None \<Rightarrow> None
      | Some (Inl e) \<Rightarrow> Some (Inl e)
      | Some (Inr (Return r h' l' inp')) \<Rightarrow> Some (Inr (Return r h' l' inp'))
      | Some (Inr (Continue h' l' inp')) \<Rightarrow> linenoiseEdit_loop enc ev h' l' inp')"

declare linenoiseEdit_loop.simps [code]

text \<open>\<^verbatim>\<open>linenoiseEdit(stdin_fd, stdout_fd, buf, buflen, prompt)\<close> on the array \<open>b\<close> of \<open>n\<close>
  bytes, in a terminal of \<open>c\<close> columns.\<close>

definition linenoiseEdit ::
  "encoding \<Rightarrow> env \<Rightarrow> hist \<Rightarrow> byte list \<Rightarrow> size_t \<Rightarrow> size_t \<Rightarrow> rd list
     \<Rightarrow> (fault + outcome) option" where
  "linenoiseEdit enc ev h b n c inp =
     (case linenoiseEdit_init b n c of Inl e \<Rightarrow> Some (Inl e)
      | Inr l \<Rightarrow>
        (case linenoiseHistoryAdd (malloc_ok ev) (strdup_ok ev) [] h of Inl e \<Rightarrow> Some (Inl e)
         | Inr (r, h1) \<Rightarrow>
           if prompt_write_fails ev then Some (Inr (Return (- 1) h1 l inp))
           else linenoiseEdit_loop enc ev h1 l inp))"

text \<open>An environment in which nothing fails, with a prompt of two columns, and keys as
  input.\<close>

definition plain_env :: env where
  "plain_env = \<lparr>mlmode = False, prompt_cols = 2, prompt_write_fails = False,
     insert_write_fails = False, malloc_ok = True, strdup_ok = True, seq_init = (NUL, NUL, NUL)\<rparr>"

definition keys :: "byte list \<Rightarrow> rd list" where
  "keys s = map Byte s"

text \<open>The line \<^verbatim>\<open>"ab"\<close> in an array of eight bytes, with the cursor at its end and at its
  start.\<close>

definition ab_end :: linenoiseState where
  "ab_end = \<lparr>buf = ''ab'' @ [NUL, NUL, NUL, NUL, NUL, NUL], buflen = 7, pos = 2, len = 2, cols = 80,
     history_index = 0\<rparr>"

definition ab_home :: linenoiseState where
  "ab_home = \<lparr>buf = ''ab'' @ [NUL, NUL, NUL, NUL, NUL, NUL], buflen = 7, pos = 0, len = 2, cols = 80,
     history_index = 0\<rparr>"

text \<open>The empty line of a session on an array of eight bytes.\<close>

definition empty_line_8 :: linenoiseState where
  "empty_line_8 = \<lparr>buf = [NUL, NUL, NUL, NUL, NUL, NUL, NUL, NUL], buflen = 7, pos = 0, len = 0,
     cols = 80, history_index = 0\<rparr>"

text \<open>The store after \<^verbatim>\<open>linenoiseHistoryAdd("a")\<close> and \<^verbatim>\<open>linenoiseHistoryAdd("b")\<close>.\<close>

definition ab_store :: hist where
  "ab_store = \<lparr>history = Some ([Some ''a'', Some ''b''] @ replicate 98 None),
     history_len = 2, history_max_len = 100\<rparr>"

section \<open>Proofs\<close>

subsection \<open>Conversions\<close>

lemma int_lt_2p31: "(n::nat) < 2 ^ 31 \<Longrightarrow> int n < 2 ^ 31"
  by simp

lemma unat_word_of_int_small:
  "0 \<le> k \<Longrightarrow> k < 2 ^ 64 \<Longrightarrow> unat (word_of_int k :: 64 word) = nat k"
  by (simp add: unat_eq_nat_uint uint_word_of_int)

lemma scast_nonneg: "0 \<le> sint (c::32 word) \<Longrightarrow> unat (scast c :: 64 word) = nat (sint c)"
proof -
  assume a: "0 \<le> sint c"
  have lt: "sint c < 2 ^ 64" using sint_lt[of c] by simp
  show ?thesis
    unfolding scast_eq by (rule unat_word_of_int_small[OF a lt])
qed

lemma ucast_small: "unat (k::64 word) < 2 ^ 31 \<Longrightarrow> sint (ucast k :: 32 word) = int (unat k)"
proof -
  assume a: "unat k < 2 ^ 31"
  have e: "uint k = int (unat k)" by (rule uint_nat)
  have k: "uint k < 2 ^ 31" unfolding e by (rule int_lt_2p31[OF a])
  have "sint (ucast k :: 32 word) = signed_take_bit 31 (uint k)"
    by (simp add: signed_ucast_eq)
  also have "\<dots> = uint k"
  proof (rule signed_take_bit_int_eq_self)
    have "- (2 ^ 31) \<le> (0::int)" by simp
    also have "0 \<le> uint k" by (rule uint_ge_0)
    finally show "- (2 ^ 31) \<le> uint k" .
    show "uint k < 2 ^ 31" by (rule k)
  qed
  finally show ?thesis by (simp only: e)
qed

lemma via_int_small: "unat k < 2 ^ 31 \<Longrightarrow> via_int k = k"
  unfolding via_int_def scast_eq by (simp add: ucast_small)


subsection \<open>The session invariant\<close>


lemma unat_add_small:
  "unat (a::64 word) + unat b < 2 ^ 64 \<Longrightarrow> unat (a + b) = unat a + unat b"
  using unat_add_lem[of a b] by simp

lemma wf_nat:
  assumes "wf l"
  shows "unat (pos l) \<le> unat (len l)" "unat (len l) \<le> unat (buflen l)"
    "length (buf l) = unat (buflen l) + 1" "unat (buflen l) < 2 ^ 63"
  using assms by (simp_all add: wf_def word_le_nat_alt)

lemma insert_wf:
  assumes w: "wf l" and c0: "0 \<le> sint clen" and c1: "nat (sint clen) \<le> length cbuf"
  shows "\<exists>rc l'. linenoiseEditInsert werr l cbuf clen = Inr (rc, l') \<and> wf l' \<and> buflen l' = buflen l"
proof -
  define n where "n = (scast clen :: size_t)"
  have un: "unat n = nat (sint clen)" unfolding n_def by (rule scast_nonneg[OF c0])
  have n31: "unat n < 2 ^ 31" using un sint_lt[of clen] c0 by simp
  have pl: "unat (pos l) \<le> unat (len l)" and lb: "unat (len l) \<le> unat (buflen l)"
    and lg: "length (buf l) = unat (buflen l) + 1" and b63: "unat (buflen l) < 2 ^ 63"
    using w by (simp_all add: wf_def word_le_nat_alt)
  have sum: "unat (len l + n) = unat (len l) + unat n"
    by (rule unat_add_small) (use lb b63 n31 in simp)
  have sump: "unat (pos l + n) = unat (pos l) + unat n"
    by (rule unat_add_small) (use pl lb b63 n31 in simp)
  have sub: "unat (len l - pos l) = unat (len l) - unat (pos l)"
    by (rule unat_sub) (use w in \<open>simp add: wf_def\<close>)
  show ?thesis
  proof (cases "len l + n \<le> buflen l")
    case False
    then show ?thesis using w by (simp add: linenoiseEditInsert_def n_def[symmetric] Let_def)
  next
    case True
    then have fit: "unat (len l) + unat n \<le> unat (buflen l)"
      using sum by (simp add: word_le_nat_alt)
    show ?thesis
      using True fit pl lb lg b63 un c1 sum sump sub
      by (auto simp: linenoiseEditInsert_def n_def[symmetric] Let_def memcpy_def memmove_def
                     poke_def wf_def word_le_nat_alt)
  qed
qed

lemma moveleft_wf:
  assumes w: "wf l" and e: "enc_ok enc"
  shows "wf (linenoiseEditMoveLeft enc l) \<and> buflen (linenoiseEditMoveLeft enc l) = buflen l"
proof (cases "0 < pos l")
  case False
  then show ?thesis using w by (simp add: linenoiseEditMoveLeft_def)
next
  case True
  define k where "k = fst (prevCharLen enc (buf l) (len l) (pos l))"
  have "pos l \<le> len l" using w by (simp add: wf_def)
  with True e have kp: "unat k \<le> unat (pos l)" by (simp add: enc_ok_def k_def)
  then have "k \<le> pos l" by (simp add: word_le_nat_alt)
  then have "unat (pos l - k) = unat (pos l) - unat k" by (rule unat_sub)
  then show ?thesis using True wf_nat[OF w] kp
    by (auto simp: linenoiseEditMoveLeft_def k_def[symmetric] wf_def word_le_nat_alt)
qed

lemma moveright_wf:
  assumes w: "wf l" and e: "enc_ok enc"
  shows "wf (linenoiseEditMoveRight enc l) \<and> buflen (linenoiseEditMoveRight enc l) = buflen l"
proof (cases "pos l \<noteq> len l")
  case False
  then show ?thesis using w by (simp add: linenoiseEditMoveRight_def)
next
  case True
  define k where "k = fst (nextCharLen enc (buf l) (len l) (pos l))"
  note n = wf_nat[OF w]
  have lt: "pos l < len l" using True w by (auto simp: wf_def)
  with e have kp: "unat k \<le> unat (len l) - unat (pos l)" by (simp add: enc_ok_def k_def)
  have "unat (pos l + k) = unat (pos l) + unat k"
    by (rule unat_add_small) (use kp n in simp)
  then show ?thesis using True kp n
    by (auto simp: linenoiseEditMoveRight_def k_def[symmetric] wf_def word_le_nat_alt)
qed

lemma movehome_wf: "wf l \<Longrightarrow> wf (linenoiseEditMoveHome l) \<and> buflen (linenoiseEditMoveHome l) = buflen l"
  by (simp add: linenoiseEditMoveHome_def wf_def)

lemma moveend_wf: "wf l \<Longrightarrow> wf (linenoiseEditMoveEnd l) \<and> buflen (linenoiseEditMoveEnd l) = buflen l"
  by (simp add: linenoiseEditMoveEnd_def wf_def)

lemma delete_wf:
  assumes w: "wf l" and e: "enc_ok enc"
  shows "\<exists>l'. linenoiseEditDelete enc l = Inr l' \<and> wf l' \<and> buflen l' = buflen l"
proof (cases "0 < len l \<and> pos l < len l")
  case False
  then show ?thesis using w by (auto simp: linenoiseEditDelete_def)
next
  case True
  define k where "k = fst (nextCharLen enc (buf l) (len l) (pos l))"
  note n = wf_nat[OF w]
  from True e have kp: "unat k \<le> unat (len l) - unat (pos l)" and k31: "unat k < 2 ^ 31"
    by (simp_all add: enc_ok_def k_def)
  have v: "via_int k = k" by (rule via_int_small[OF k31])
  have lt: "unat (pos l) < unat (len l)" using True by (simp add: word_less_nat_alt)
  have a1: "unat (pos l + k) = unat (pos l) + unat k"
    by (rule unat_add_small) (use kp n in simp)
  have s1: "unat (len l - pos l) = unat (len l) - unat (pos l)"
    by (rule unat_sub) (use w in \<open>simp add: wf_def\<close>)
  have "k \<le> len l - pos l" using kp s1 by (simp add: word_le_nat_alt)
  then have s2: "unat (len l - pos l - k) = unat (len l) - unat (pos l) - unat k"
    using s1 by (simp add: unat_sub)
  have "k \<le> len l" using kp by (simp add: word_le_nat_alt)
  then have s3: "unat (len l - k) = unat (len l) - unat k" by (rule unat_sub)
  show ?thesis
    using True kp lt a1 s2 s3 n
    by (auto simp: linenoiseEditDelete_def k_def[symmetric] v Let_def memmove_def poke_def
                   wf_def word_le_nat_alt)
qed

lemma backspace_wf:
  assumes w: "wf l" and e: "enc_ok enc"
  shows "\<exists>l'. linenoiseEditBackspace enc l = Inr l' \<and> wf l' \<and> buflen l' = buflen l"
proof (cases "0 < pos l \<and> 0 < len l")
  case False
  then show ?thesis using w by (auto simp: linenoiseEditBackspace_def)
next
  case True
  define k where "k = fst (prevCharLen enc (buf l) (len l) (pos l))"
  note n = wf_nat[OF w]
  have "pos l \<le> len l" using w by (simp add: wf_def)
  with True e have kp: "unat k \<le> unat (pos l)" and k31: "unat k < 2 ^ 31"
    by (simp_all add: enc_ok_def k_def)
  have v: "via_int k = k" by (rule via_int_small[OF k31])
  have "k \<le> pos l" using kp by (simp add: word_le_nat_alt)
  then have s1: "unat (pos l - k) = unat (pos l) - unat k" by (rule unat_sub)
  have "k \<le> len l" using kp n by (simp add: word_le_nat_alt)
  then have s2: "unat (len l - k) = unat (len l) - unat k" by (rule unat_sub)
  have s3: "unat (len l - pos l) = unat (len l) - unat (pos l)"
    by (rule unat_sub) (use w in \<open>simp add: wf_def\<close>)
  show ?thesis
    using True kp s1 s2 s3 n
    by (auto simp: linenoiseEditBackspace_def k_def[symmetric] v Let_def memmove_def poke_def
                   wf_def word_le_nat_alt)
qed


lemma fwd_spaces_ok:
  "p \<le> n \<Longrightarrow> unat n < length b \<Longrightarrow> \<exists>q. fwd_spaces b n p = Inr q \<and> p \<le> q \<and> q \<le> n"
proof (induction b n p rule: fwd_spaces.induct)
  case (1 b n p)
  show ?case
  proof (cases "p < n")
    case False
    with 1 show ?thesis by (subst fwd_spaces.simps) simp
  next
    case True
    then have pk: "peek b p = Inr (b ! unat p)"
      using 1(3) by (simp add: peek_def word_less_nat_alt)
    show ?thesis
    proof (cases "b ! unat p = SPC")
      case False
      with True pk show ?thesis by (subst fwd_spaces.simps) simp
    next
      case sp: True
      have le: "p + 1 \<le> n" using True by unat_arith
      have lt: "p \<le> p + 1" using True by unat_arith
      from 1(1)[OF True pk sp le 1(3)] obtain q where
        "fwd_spaces b n (p + 1) = Inr q" "p + 1 \<le> q" "q \<le> n" by blast
      with True pk sp lt show ?thesis
        by (subst fwd_spaces.simps) auto
    qed
  qed
qed

lemma fwd_word_ok:
  "p \<le> n \<Longrightarrow> unat n < length b \<Longrightarrow> \<exists>q. fwd_word b n p = Inr q \<and> p \<le> q \<and> q \<le> n"
proof (induction b n p rule: fwd_word.induct)
  case (1 b n p)
  show ?case
  proof (cases "p < n")
    case False
    with 1 show ?thesis by (subst fwd_word.simps) simp
  next
    case True
    then have pk: "peek b p = Inr (b ! unat p)"
      using 1(3) by (simp add: peek_def word_less_nat_alt)
    show ?thesis
    proof (cases "b ! unat p \<noteq> SPC")
      case False
      with True pk show ?thesis by (subst fwd_word.simps) simp
    next
      case sp: True
      have le: "p + 1 \<le> n" using True by unat_arith
      have lt: "p \<le> p + 1" using True by unat_arith
      from 1(1)[OF True pk sp le 1(3)] obtain q where
        "fwd_word b n (p + 1) = Inr q" "p + 1 \<le> q" "q \<le> n" by blast
      with True pk sp lt show ?thesis
        by (subst fwd_word.simps) auto
    qed
  qed
qed

lemma unat_m1: "unat (- 1 :: 64 word) = 18446744073709551615"
  by (simp add: unsigned_minus_1_eq_mask mask_eq_exp_minus_1)

lemma unat_pred: "0 < (p::64 word) \<Longrightarrow> unat (p - 1) = unat p - 1"
  by unat_arith

lemma pred_le: "0 < (p::64 word) \<Longrightarrow> p - 1 \<le> p"
  by unat_arith

lemma bwd_spaces_at_ok:
  "unat p < length b \<Longrightarrow> \<exists>q. bwd_spaces_at b p = Inr q \<and> q \<le> p"
proof (induction b p rule: bwd_spaces_at.induct)
  case (1 b p)
  show ?case
  proof (cases "0 < p")
    case False
    then show ?thesis by (subst bwd_spaces_at.simps) simp
  next
    case True
    have pk: "peek b p = Inr (b ! unat p)" using 1(2) by (simp add: peek_def)
    show ?thesis
    proof (cases "b ! unat p = SPC")
      case False
      with True pk show ?thesis by (subst bwd_spaces_at.simps) simp
    next
      case sp: True
      have "unat (p - 1) < length b" using unat_pred[OF True] 1(2) by simp
      from 1(1)[OF True pk sp this] obtain q where
        "bwd_spaces_at b (p - 1) = Inr q" "q \<le> p - 1" by blast
      with True pk sp pred_le[OF True] show ?thesis
        by (subst bwd_spaces_at.simps) auto
    qed
  qed
qed

lemma bwd_word_ok:
  "unat p \<le> length b \<Longrightarrow> \<exists>q. bwd_word b p = Inr q \<and> q \<le> p"
proof (induction b p rule: bwd_word.induct)
  case (1 b p)
  show ?case
  proof (cases "0 < p")
    case False
    then show ?thesis by (subst bwd_word.simps) simp
  next
    case True
    have u: "unat (p - 1) = unat p - 1" by (rule unat_pred[OF True])
    have "0 < unat p" using True by (simp add: word_less_nat_alt)
    then have lt: "unat (p - 1) < length b" using u 1(2) by simp
    then have pk: "peek b (p - 1) = Inr (b ! unat (p - 1))" by (simp add: peek_def)
    show ?thesis
    proof (cases "b ! unat (p - 1) \<noteq> SPC")
      case False
      with True pk show ?thesis by (subst bwd_word.simps) simp
    next
      case sp: True
      from lt have "unat (p - 1) \<le> length b" by simp
      from 1(1)[OF True pk sp this] obtain q where
        "bwd_word b (p - 1) = Inr q" "q \<le> p - 1" by blast
      with True pk sp pred_le[OF True] show ?thesis
        by (subst bwd_word.simps) auto
    qed
  qed
qed

lemma bwd_spaces_ok:
  "unat p \<le> length b \<Longrightarrow> \<exists>q. bwd_spaces b p = Inr q \<and> q \<le> p"
proof (induction b p rule: bwd_spaces.induct)
  case (1 b p)
  show ?case
  proof (cases "0 < p")
    case False
    then show ?thesis by (subst bwd_spaces.simps) simp
  next
    case True
    have u: "unat (p - 1) = unat p - 1" by (rule unat_pred[OF True])
    have "0 < unat p" using True by (simp add: word_less_nat_alt)
    then have lt: "unat (p - 1) < length b" using u 1(2) by simp
    then have pk: "peek b (p - 1) = Inr (b ! unat (p - 1))" by (simp add: peek_def)
    show ?thesis
    proof (cases "b ! unat (p - 1) = SPC")
      case False
      with True pk show ?thesis by (subst bwd_spaces.simps) simp
    next
      case sp: True
      from lt have "unat (p - 1) \<le> length b" by simp
      from 1(1)[OF True pk sp this] obtain q where
        "bwd_spaces b (p - 1) = Inr q" "q \<le> p - 1" by blast
      with True pk sp pred_le[OF True] show ?thesis
        by (subst bwd_spaces.simps) auto
    qed
  qed
qed

lemma movewordend_wf:
  assumes w: "wf l"
  shows "\<exists>l'. linenoiseEditMoveWordEnd l = Inr l' \<and> wf l' \<and> buflen l' = buflen l"
proof (cases "len l = 0 \<or> len l \<le> pos l")
  case True
  then show ?thesis using w by (auto simp: linenoiseEditMoveWordEnd_def)
next
  case False
  note n = wf_nat[OF w]
  have pl: "pos l \<le> len l" using w by (simp add: wf_def)
  have ll: "unat (len l) < length (buf l)" using n by simp
  have pk: "peek (buf l) (pos l) = Inr (buf l ! unat (pos l))"
    using n by (simp add: peek_def)
  obtain p1 where p1: "(if buf l ! unat (pos l) = SPC then fwd_spaces (buf l) (len l) (pos l)
      else Inr (pos l)) = Inr p1" "p1 \<le> len l"
    using fwd_spaces_ok[OF pl ll] pl by (cases "buf l ! unat (pos l) = SPC") auto
  obtain p2 where p2: "fwd_word (buf l) (len l) p1 = Inr p2" "p2 \<le> len l"
    using fwd_word_ok[OF p1(2) ll] by blast
  show ?thesis using False pk p1 p2 w
    by (simp add: linenoiseEditMoveWordEnd_def wf_def)
qed

lemma movewordstart_wf:
  assumes w: "wf l"
  shows "(linenoiseEditMoveWordStart l = Inl OutOfBounds \<and> pos l = 0 \<and> len l \<noteq> 0) \<or>
         (\<exists>l'. linenoiseEditMoveWordStart l = Inr l' \<and> wf l' \<and> buflen l' = buflen l)"
proof (cases "len l = 0")
  case True
  then show ?thesis using w by (simp add: linenoiseEditMoveWordStart_def)
next
  case False
  note n = wf_nat[OF w]
  show ?thesis
  proof (cases "unat (pos l - 1) < length (buf l)")
    case oob: False
    have "pos l = 0"
    proof (rule ccontr)
      assume "pos l \<noteq> 0"
      then have "unat (pos l - 1) = unat (pos l) - 1" by (rule unat_minus_one)
      with oob n show False by simp
    qed
    then show ?thesis using False oob by (simp add: linenoiseEditMoveWordStart_def peek_def)
  next
    case inb: True
    have pos0: "0 < pos l"
    proof (rule ccontr)
      assume "\<not> 0 < pos l"
      then have "pos l = 0" by unat_arith
      then have "unat (pos l - 1) = 18446744073709551615" by (simp add: unat_m1)
      with inb n show False by simp
    qed
    define c where "c = buf l ! unat (pos l - 1)"
    define p1 where "p1 = (if c = SPC then pos l - 1 else pos l)"
    have pk: "peek (buf l) (pos l - 1) = Inr c" using inb by (simp add: peek_def c_def)
    have p1le: "p1 \<le> pos l" using pred_le[OF pos0] by (simp add: p1_def)
    then have p1n: "unat p1 \<le> unat (pos l)" by (simp add: word_le_nat_alt)
    then have p1lt: "unat p1 < length (buf l)" using n by simp
    have pk1: "peek (buf l) p1 = Inr (buf l ! unat p1)" using p1lt by (simp add: peek_def)
    obtain p2 where p2: "(if buf l ! unat p1 = SPC then bwd_spaces_at (buf l) p1 else Inr p1) = Inr p2"
      "p2 \<le> p1"
      using bwd_spaces_at_ok[OF p1lt] by (cases "buf l ! unat p1 = SPC") auto
    have "unat p2 \<le> length (buf l)" using p2(2) p1lt by (simp add: word_le_nat_alt)
    from bwd_word_ok[OF this] obtain p3 where p3: "bwd_word (buf l) p2 = Inr p3" "p3 \<le> p2"
      by blast
    have "p3 \<le> len l" using p3(2) p2(2) p1le w by (simp add: wf_def word_le_nat_alt)
    then show ?thesis using False pk pk1 p2 p3 w
      by (simp add: linenoiseEditMoveWordStart_def p1_def[symmetric] Let_def wf_def)
  qed
qed



lemma enc_ok_default: "enc_ok default_encoding"
  unfolding enc_ok_def default_encoding_def defaultNextCharLen_def defaultPrevCharLen_def
  by (auto simp: word_less_nat_alt word_le_nat_alt)

lemma apply_op_wf:
  assumes w: "wf l" and e: "enc_ok enc" and o: "op_ok x"
  shows "(apply_op enc l x = Inl OutOfBounds \<and> x = MoveWordStart \<and> pos l = 0 \<and> len l \<noteq> 0) \<or>
         (\<exists>l'. apply_op enc l x = Inr l' \<and> wf l' \<and> buflen l' = buflen l)"
proof (cases x)
  case (Insert werr cbuf clen)
  with o have "0 \<le> sint clen" "nat (sint clen) \<le> length cbuf" by simp_all
  from insert_wf[OF w this, of werr] show ?thesis using Insert by auto
next
  case Delete
  then show ?thesis using delete_wf[OF w e] by simp
next
  case Backspace
  then show ?thesis using backspace_wf[OF w e] by simp
next
  case MoveLeft
  then show ?thesis using moveleft_wf[OF w e] by simp
next
  case MoveRight
  then show ?thesis using moveright_wf[OF w e] by simp
next
  case MoveHome
  then show ?thesis using movehome_wf[OF w] by simp
next
  case MoveEnd
  then show ?thesis using moveend_wf[OF w] by simp
next
  case MoveWordEnd
  then show ?thesis using movewordend_wf[OF w] by simp
next
  case MoveWordStart
  then show ?thesis using movewordstart_wf[OF w] by auto
qed

text \<open>
  A run of operations from a session state either ends in a session state, or stops at
  the first \<^verbatim>\<open>linenoiseEditMoveWordStart\<close> that finds the cursor at 0 on a non-empty line:
  up to there the states are session states, and that call reads outside the array.
\<close>

lemma run_ops_wf:
  assumes "wf l" and "enc_ok enc" and "\<forall>x\<in>set ops. op_ok x"
  shows "(\<exists>l'. run_ops enc l ops = Inr l' \<and> wf l' \<and> buflen l' = buflen l) \<or>
         (\<exists>pre post l'. ops = pre @ MoveWordStart # post \<and> run_ops enc l pre = Inr l'
             \<and> wf l' \<and> buflen l' = buflen l \<and> pos l' = 0 \<and> len l' \<noteq> 0
             \<and> run_ops enc l ops = Inl OutOfBounds)"
  using assms
proof (induction ops arbitrary: l)
  case Nil
  then show ?case by simp
next
  case (Cons x xs)
  from Cons.prems have ox: "op_ok x" and oxs: "\<forall>y\<in>set xs. op_ok y" by simp_all
  from apply_op_wf[OF Cons.prems(1,2) ox] show ?case
  proof
    assume f: "apply_op enc l x = Inl OutOfBounds \<and> x = MoveWordStart \<and> pos l = 0 \<and> len l \<noteq> 0"
    then have a: "apply_op enc l x = Inl OutOfBounds" by blast
    have r: "run_ops enc l (x # xs) = Inl OutOfBounds" by (simp only: run_ops.simps a sum.case)
    have "x # xs = [] @ MoveWordStart # xs" using f by simp
    moreover have "run_ops enc l [] = Inr l" by simp
    ultimately show ?thesis using f r Cons.prems(1) by blast
  next
    assume "\<exists>l'. apply_op enc l x = Inr l' \<and> wf l' \<and> buflen l' = buflen l"
    then obtain l1 where l1: "apply_op enc l x = Inr l1" "wf l1" "buflen l1 = buflen l" by blast
    then have st: "\<And>ys. run_ops enc l (x # ys) = run_ops enc l1 ys" by simp
    from Cons.IH[OF l1(2) Cons.prems(2) oxs] show ?thesis
    proof
      assume "\<exists>l'. run_ops enc l1 xs = Inr l' \<and> wf l' \<and> buflen l' = buflen l1"
      then show ?thesis using st l1(3) by auto
    next
      assume "\<exists>pre post l'. xs = pre @ MoveWordStart # post \<and> run_ops enc l1 pre = Inr l'
             \<and> wf l' \<and> buflen l' = buflen l1 \<and> pos l' = 0 \<and> len l' \<noteq> 0
             \<and> run_ops enc l1 xs = Inl OutOfBounds"
      then obtain pre post l' where p: "xs = pre @ MoveWordStart # post"
        "run_ops enc l1 pre = Inr l'" "wf l'" "buflen l' = buflen l1" "pos l' = 0" "len l' \<noteq> 0"
        "run_ops enc l1 xs = Inl OutOfBounds" by blast
      have "x # xs = (x # pre) @ MoveWordStart # post" using p(1) by simp
      moreover have "run_ops enc l (x # pre) = Inr l'" using st p(2) by simp
      moreover have "run_ops enc l (x # xs) = Inl OutOfBounds" using st p(7) by simp
      moreover have "buflen l' = buflen l" using p(4) l1(3) by simp
      ultimately show ?thesis using p(3,5,6) by blast
    qed
  qed
qed

lemma init_wf:
  assumes n0: "n \<noteq> 0" and lg: "length b = unat n" and sz: "unat n \<le> 2 ^ 63"
  shows "\<exists>l0. linenoiseEdit_init b n c = Inr l0 \<and> wf l0 \<and> buflen l0 = n - 1 \<and> pos l0 = 0 \<and> len l0 = 0"
proof -
  have "0 < unat n" using n0 by (simp add: unat_gt_0)
  moreover have "unat (n - 1) = unat n - 1" using n0 by (simp add: unat_minus_one)
  ultimately show ?thesis using lg sz
    by (simp add: linenoiseEdit_init_def poke_def wf_def)
qed

text \<open>
  A session starts empty on an array of \<open>n > 0\<close> bytes (\<^verbatim>\<open>linenoiseRaw\<close> refuses \<open>n = 0\<close>).
  A sequence of Insert, Delete, Backspace and cursor moves leaves a state with
  \<open>pos \<le> len < n\<close>, unless one of them is a \<^verbatim>\<open>linenoiseEditMoveWordStart\<close> that finds the
  cursor at 0 on a non-empty line: the operations before it leave such a state, and the
  call reads outside the array.  Every prefix of a sequence is a sequence, so the first
  case is the invariant after every operation.
\<close>

lemma edit_invariant_until_fault:
  assumes n0: "n \<noteq> 0" and lg: "length b = unat n" and sz: "unat n \<le> 2 ^ 63"
    and e: "enc_ok enc" and o: "\<forall>x\<in>set ops. op_ok x"
  shows "\<exists>l0. linenoiseEdit_init b n c = Inr l0 \<and>
           ((\<exists>l. run_ops enc l0 ops = Inr l \<and> pos l \<le> len l \<and> len l < n) \<or>
            (\<exists>pre post l. ops = pre @ MoveWordStart # post \<and> run_ops enc l0 pre = Inr l
                \<and> pos l = 0 \<and> len l \<noteq> 0 \<and> len l < n
                \<and> run_ops enc l0 ops = Inl OutOfBounds))"
proof -
  from init_wf[OF n0 lg sz] obtain l0 where
    l0: "linenoiseEdit_init b n c = Inr l0" "wf l0" "buflen l0 = n - 1" by blast
  have lt: "\<And>x. x \<le> n - 1 \<Longrightarrow> x < n" using n0 by unat_arith
  have inv: "\<And>l. wf l \<Longrightarrow> buflen l = buflen l0 \<Longrightarrow> pos l \<le> len l \<and> len l < n"
    using l0(3) lt by (simp add: wf_def)
  from run_ops_wf[OF l0(2) e o] show ?thesis
  proof
    assume "\<exists>l'. run_ops enc l0 ops = Inr l' \<and> wf l' \<and> buflen l' = buflen l0"
    then show ?thesis using l0(1) inv by blast
  next
    assume "\<exists>pre post l'. ops = pre @ MoveWordStart # post \<and> run_ops enc l0 pre = Inr l'
             \<and> wf l' \<and> buflen l' = buflen l0 \<and> pos l' = 0 \<and> len l' \<noteq> 0
             \<and> run_ops enc l0 ops = Inl OutOfBounds"
    then obtain pre post l' where p: "ops = pre @ MoveWordStart # post"
      "run_ops enc l0 pre = Inr l'" "wf l'" "buflen l' = buflen l0" "pos l' = 0" "len l' \<noteq> 0"
      "run_ops enc l0 ops = Inl OutOfBounds" by blast
    from inv[OF p(3,4)] have "len l' < n" by simp
    with p(1,2,5,6,7) l0(1) show ?thesis by blast
  qed
qed

lemma edit_invariant_without_word_start:
  assumes n0: "n \<noteq> 0" and lg: "length b = unat n" and sz: "unat n \<le> 2 ^ 63"
    and e: "enc_ok enc" and o: "\<forall>x\<in>set ops. op_ok x" and m: "MoveWordStart \<notin> set ops"
  shows "\<exists>l0 l. linenoiseEdit_init b n c = Inr l0 \<and> run_ops enc l0 ops = Inr l
           \<and> pos l \<le> len l \<and> len l < n"
  using edit_invariant_until_fault[OF n0 lg sz e o, of c] m by auto

lemma edit_invariant_demo:
  "\<exists>l0 l. linenoiseEdit_init ''xxxx'' 4 80 = Inr l0 \<and> run_ops default_encoding l0 demo_ops = Inr l
           \<and> pos l \<le> len l \<and> len l < 4"
proof -
  have h1: "(4::size_t) \<noteq> 0" by simp
  have h2: "length ''xxxx'' = unat (4::size_t)" by simp
  have h3: "unat (4::size_t) \<le> 2 ^ 63" by simp
  have h4: "\<forall>x\<in>set demo_ops. op_ok x" by (simp add: demo_ops_def)
  have h5: "MoveWordStart \<notin> set demo_ops" by (simp add: demo_ops_def)
  show ?thesis by (rule edit_invariant_without_word_start[OF h1 h2 h3 enc_ok_default h4 h5])
qed

text \<open>
  C1.  The invariant does not hold after every operation.  A session on an array of two
  bytes takes \<^verbatim>\<open>'a'\<close> and a move to the start of the line; the state satisfies
  \<open>pos \<le> len < 2\<close>.  The next operation, a move to the start of the word, reads \<^verbatim>\<open>buf[pos-1]\<close>
  with \<open>pos = 0\<close>, outside the array: the behaviour of the program is undefined from there
  and no state follows.
\<close>

theorem edit_invariant_lost_at_word_start:
  "linenoiseEdit_init [CHR ''x'', CHR ''y''] 2 80 = Inr line_empty_2 \<and>
   run_ops default_encoding line_empty_2 [Insert False ''a'' 1, MoveHome] = Inr line_a_home \<and>
   pos line_a_home \<le> len line_a_home \<and> len line_a_home < 2 \<and>
   run_ops default_encoding line_empty_2 [Insert False ''a'' 1, MoveHome, MoveWordStart] =
     Inl OutOfBounds"
  by (simp add: line_empty_2_def line_a_home_def linenoiseEdit_init_def linenoiseEditInsert_def
        linenoiseEditMoveHome_def linenoiseEditMoveWordStart_def memcpy_def poke_def peek_def
        word_le_nat_alt word_less_nat_alt unat_m1)

subsection \<open>Insertion\<close>

lemma take_all_prefix: "take (length xs) (xs @ ys) = xs"
  by simp

lemma splice_end:
  fixes b c :: "byte list"
  assumes "P + N < length b" "length c = N"
  defines "b' \<equiv> (take P b @ c @ drop (P + N) b)[P + N := NUL]"
  shows "length b' = length b" "take (P + N) b' = take P b @ c" "b' ! (P + N) = NUL"
  using assms by (simp_all add: nth_append)

lemma splice_mid:
  fixes b c :: "byte list"
  assumes "P \<le> L" "L + N < length b" "length c = N"
  defines "bm \<equiv> take (P + N) b @ take (L - P) (drop P b) @ drop (P + N + (L - P)) b"
  defines "b' \<equiv> (take P bm @ c @ drop (P + N) bm)[L + N := NUL]"
  shows "length b' = length b" "take (L + N) b' = take P b @ c @ drop P (take L b)"
    "b' ! (L + N) = NUL"
proof -
  have lbm: "length bm = length b" using assms(1,2) by (simp add: bm_def)
  have t: "take P bm = take P b" using assms(1,2) by (simp add: bm_def)
  have d: "drop (P + N) bm = take (L - P) (drop P b) @ drop (L + N) b"
    using assms(1,2) by (simp add: bm_def add.commute)
  have e: "take P bm @ c @ drop (P + N) bm = take P b @ c @ take (L - P) (drop P b) @ drop (L + N) b"
    by (simp add: t d)
  have l1: "length (take P b @ c @ take (L - P) (drop P b)) = L + N"
    using assms(1,2,3) by simp
  show "length b' = length b" using assms(1,2,3) by (simp add: b'_def e)
  have "take (L + N) b' = take (L + N) (take P b @ c @ take (L - P) (drop P b) @ drop (L + N) b)"
    by (simp add: b'_def e)
  also have "\<dots> = take (length (take P b @ c @ take (L - P) (drop P b)))
       ((take P b @ c @ take (L - P) (drop P b)) @ drop (L + N) b)"
    by (simp only: l1 append_assoc)
  also have "\<dots> = take P b @ c @ take (L - P) (drop P b)"
    by (rule take_all_prefix)
  also have "take (L - P) (drop P b) = drop P (take L b)" by (simp add: drop_take)
  finally show "take (L + N) b' = take P b @ c @ drop P (take L b)" .
  have "L + N < length (take P b @ c @ take (L - P) (drop P b) @ drop (L + N) b)"
    using assms(1,2,3) by simp
  then show "b' ! (L + N) = NUL" by (simp add: b'_def e)
qed

text \<open>
  C3, as amended.  In a session state an Insert of \<open>clen\<close> bytes that would make the
  length reach the size of the array (a line of \<open>len + clen\<close> bytes has no room for its
  terminator) returns 0 and changes nothing.  Otherwise it puts the bytes at the cursor,
  between the text before and the text after it, terminates the line, and advances
  cursor and length by \<open>clen\<close>.
\<close>

theorem insert_contract:
  assumes w: "wf l" and c0: "0 \<le> sint clen" and c1: "nat (sint clen) \<le> length cbuf"
  shows "(length (buf l) \<le> unat (len l) + nat (sint clen) \<longrightarrow>
            linenoiseEditInsert werr l cbuf clen = Inr (0, l)) \<and>
         (unat (len l) + nat (sint clen) < length (buf l) \<longrightarrow>
            (\<exists>rc b'. linenoiseEditInsert werr l cbuf clen =
                 Inr (rc, l\<lparr>buf := b', pos := pos l + scast clen, len := len l + scast clen\<rparr>)
               \<and> unat (pos l + scast clen) = unat (pos l) + nat (sint clen)
               \<and> unat (len l + scast clen) = unat (len l) + nat (sint clen)
               \<and> length b' = length (buf l)
               \<and> take (unat (len l) + nat (sint clen)) b' =
                   take (unat (pos l)) (buf l) @ take (nat (sint clen)) cbuf
                     @ drop (unat (pos l)) (take (unat (len l)) (buf l))
               \<and> b' ! (unat (len l) + nat (sint clen)) = NUL))"
proof -
  define n where "n = (scast clen :: size_t)"
  define N where "N = nat (sint clen)"
  define P where "P = unat (pos l)"
  define L where "L = unat (len l)"
  define c where "c = take N cbuf"
  have un: "unat n = N" unfolding n_def N_def by (rule scast_nonneg[OF c0])
  have n31: "N < 2 ^ 31" using sint_lt[of clen] c0 by (simp add: N_def)
  note f = wf_nat[OF w]
  have PL: "P \<le> L" using f by (simp add: P_def L_def)
  have lc: "length c = N" using c1 by (simp add: c_def N_def)
  have sum: "unat (len l + n) = L + N" unfolding L_def un[symmetric]
    by (rule unat_add_small) (use f n31 un in simp)
  have sump: "unat (pos l + n) = P + N" unfolding P_def un[symmetric]
    by (rule unat_add_small) (use f n31 un in simp)
  have sub: "unat (len l - pos l) = L - P" unfolding L_def P_def
    by (rule unat_sub) (use w in \<open>simp add: wf_def\<close>)
  have cond: "len l + n \<le> buflen l \<longleftrightarrow> L + N < length (buf l)"
    using sum f by (auto simp: word_le_nat_alt)
  show ?thesis
  proof (cases "len l + n \<le> buflen l")
    case False
    then have "linenoiseEditInsert werr l cbuf clen = Inr (0, l)"
      by (simp add: linenoiseEditInsert_def n_def[symmetric] Let_def)
    with False cond show ?thesis by (simp add: L_def N_def)
  next
    case True
    then have fit: "L + N < length (buf l)" using cond by simp
    have notfull: "\<not> length (buf l) \<le> L + N" using fit by simp
    have fin: "?thesis"
      if r: "linenoiseEditInsert werr l cbuf clen =
               Inr (rc, l\<lparr>buf := B, pos := pos l + n, len := len l + n\<rparr>)"
        and p: "length B = length (buf l)"
          "take (L + N) B = take P (buf l) @ c @ drop P (take L (buf l))"
          "B ! (L + N) = NUL"
      for rc B
    proof (intro conjI impI)
      assume "length (buf l) \<le> unat (len l) + nat (sint clen)"
      with notfull show "linenoiseEditInsert werr l cbuf clen = Inr (0, l)"
        by (simp add: L_def N_def)
    next
      show "\<exists>rc b'. linenoiseEditInsert werr l cbuf clen =
                 Inr (rc, l\<lparr>buf := b', pos := pos l + scast clen, len := len l + scast clen\<rparr>)
               \<and> unat (pos l + scast clen) = unat (pos l) + nat (sint clen)
               \<and> unat (len l + scast clen) = unat (len l) + nat (sint clen)
               \<and> length b' = length (buf l)
               \<and> take (unat (len l) + nat (sint clen)) b' =
                   take (unat (pos l)) (buf l) @ take (nat (sint clen)) cbuf
                     @ drop (unat (pos l)) (take (unat (len l)) (buf l))
               \<and> b' ! (unat (len l) + nat (sint clen)) = NUL"
        unfolding n_def[symmetric] N_def[symmetric] L_def[symmetric] P_def[symmetric]
          c_def[symmetric]
        by (intro exI[of _ rc] exI[of _ B] conjI r sum sump p)
    qed
    show ?thesis
    proof (cases "len l = pos l")
      case e: True
      then have LP: "L = P" by (simp add: L_def P_def)
      define B where "B = (take P (buf l) @ c @ drop (P + N) (buf l))[P + N := NUL]"
      have r: "linenoiseEditInsert werr l cbuf clen =
          Inr (if werr then - 1 else 0, l\<lparr>buf := B, pos := pos l + n, len := len l + n\<rparr>)"
        using True e fit lc c1 sum sump LP un
        by (simp add: linenoiseEditInsert_def n_def[symmetric] Let_def memcpy_def poke_def
              B_def c_def P_def[symmetric] N_def[symmetric])
      from splice_end[of P N "buf l" c] fit lc LP
      have q: "length B = length (buf l)" "take (L + N) B = take P (buf l) @ c @ drop P (take L (buf l))"
        "B ! (L + N) = NUL" by (simp_all add: B_def)
      show ?thesis by (rule fin[OF r q])
    next
      case ne: False
      define bm where "bm = take (P + N) (buf l) @ take (L - P) (drop P (buf l))
         @ drop (P + N + (L - P)) (buf l)"
      define B where "B = (take P bm @ c @ drop (P + N) bm)[L + N := NUL]"
      have lbm: "length bm = length (buf l)" using PL fit by (simp add: bm_def)
      have m: "memmove (buf l) (pos l + n) (pos l) (len l - pos l) = Inr bm"
        using PL fit sump sub by (simp add: memmove_def bm_def P_def[symmetric])
      have cp: "memcpy bm (pos l) cbuf n = Inr (take P bm @ c @ drop (P + N) bm)"
        using PL fit lbm c1 un by (simp add: memcpy_def c_def P_def[symmetric] N_def[symmetric])
      have r: "linenoiseEditInsert werr l cbuf clen =
          Inr (0, l\<lparr>buf := B, pos := pos l + n, len := len l + n\<rparr>)"
        using True ne m cp fit lbm lc sum
        by (simp add: linenoiseEditInsert_def n_def[symmetric] Let_def poke_def B_def)
      have q: "length B = length (buf l)" "take (L + N) B = take P (buf l) @ c @ drop P (take L (buf l))"
        "B ! (L + N) = NUL"
        unfolding B_def bm_def by (rule splice_mid[OF PL fit lc])+
      show ?thesis by (rule fin[OF r q])
    qed
  qed
qed

text \<open>C3 at the line \<^verbatim>\<open>"ac"\<close>: inserting \<^verbatim>\<open>"b"\<close> between the letters.\<close>

theorem insert_contract_witness:
  "wf line_ac \<and>
   (\<exists>rc b'. linenoiseEditInsert False line_ac ''b'' 1 =
        Inr (rc, line_ac\<lparr>buf := b', pos := 2, len := 3\<rparr>)
      \<and> length b' = length (buf line_ac) \<and> take 3 b' = ''abc'' \<and> b' ! 3 = NUL)"
proof -
  have h1: "wf line_ac" by (simp add: line_ac_def wf_def word_le_nat_alt)
  have h2: "0 \<le> sint (1::cint)" by simp
  have h3: "nat (sint (1::cint)) \<le> length ''b''" by simp
  have f: "buf line_ac = [CHR ''a'', CHR ''c'', NUL, CHR ''x'']" "pos line_ac = 1"
    "len line_ac = 2" by (simp_all add: line_ac_def)
  from insert_contract[OF h1 h2 h3, of False]
  have "\<exists>rc b'. linenoiseEditInsert False line_ac ''b'' 1 =
        Inr (rc, line_ac\<lparr>buf := b', pos := 2, len := 3\<rparr>)
      \<and> length b' = length (buf line_ac) \<and> take 3 b' = ''abc'' \<and> b' ! 3 = NUL"
    by (simp add: f)
  with h1 show ?thesis by blast
qed

lemma insert_demo:
  "linenoiseEditInsert False line_ac ''b'' 1 =
     Inr (0, line_ac\<lparr>buf := [CHR ''a'', CHR ''b'', CHR ''c'', NUL], pos := 2, len := 3\<rparr>)"
  by (simp add: line_ac_def linenoiseEditInsert_def memmove_def memcpy_def poke_def
      word_le_nat_alt)

text \<open>
  C3, as stated, fails where the new length equals the capacity.  A session on an array of
  two bytes takes \<^verbatim>\<open>'a'\<close>; one more byte would make the length 2, which does not exceed
  2, yet the Insert of \<^verbatim>\<open>'b'\<close> is dropped.
\<close>

theorem insert_at_capacity_counterexample:
  "linenoiseEdit_init [CHR ''x'', CHR ''y''] 2 80 = Inr line_empty_2 \<and>
   linenoiseEditInsert False line_empty_2 ''a'' 1 = Inr (0, line_a_full) \<and>
   wf line_a_full \<and> unat (len line_a_full) + 1 \<le> length (buf line_a_full) \<and>
   linenoiseEditInsert False line_a_full ''b'' 1 = Inr (0, line_a_full)"
  by (simp add: line_a_full_def line_empty_2_def wf_def linenoiseEdit_init_def
        linenoiseEditInsert_def memcpy_def poke_def word_le_nat_alt)

subsection \<open>Moving to the start of a word\<close>

lemma movewordstart_at_0:
  assumes w: "wf l" and n0: "len l \<noteq> 0" and p0: "pos l = 0"
  shows "linenoiseEditMoveWordStart l = Inl OutOfBounds"
  using wf_nat[OF w] n0 p0 by (simp add: linenoiseEditMoveWordStart_def peek_def unat_m1)

text \<open>
  C10.  With the cursor at 0 on a non-empty line the first statement of
  \<^verbatim>\<open>linenoiseEditMoveWordStart\<close> reads \<^verbatim>\<open>buf[pos-1]\<close>, index \<open>2^64 - 1\<close>: outside the
  array.  The lemma above is the general statement, this is the line \<^verbatim>\<open>"a"\<close>.
\<close>

theorem movewordstart_reads_before_buffer:
  "wf line_a_home \<and> linenoiseEditMoveWordStart line_a_home = Inl OutOfBounds"
  by (simp add: line_a_home_def wf_def linenoiseEditMoveWordStart_def peek_def unat_m1)


subsection \<open>Termination of the line\<close>

text \<open>Insert, Delete, Backspace, the three inline edits and DeletePrevWord keep the
  terminator at \<^verbatim>\<open>buf[len]\<close>.\<close>

lemma poke_peek: "poke b i c = Inr b' \<Longrightarrow> peek b' i = Inr c"
  by (auto simp: poke_def peek_def split: if_splits)

lemma insert_nul:
  "linenoiseEditInsert werr l cbuf clen = Inr (rc, l') \<Longrightarrow> nul_terminated l \<Longrightarrow> nul_terminated l'"
  by (auto simp: linenoiseEditInsert_def Let_def nul_terminated_def dest!: poke_peek
      split: if_splits sum.splits)

lemma delete_nul:
  "linenoiseEditDelete enc l = Inr l' \<Longrightarrow> nul_terminated l \<Longrightarrow> nul_terminated l'"
  by (auto simp: linenoiseEditDelete_def Let_def nul_terminated_def dest!: poke_peek
      split: if_splits sum.splits)

lemma backspace_nul:
  "linenoiseEditBackspace enc l = Inr l' \<Longrightarrow> nul_terminated l \<Longrightarrow> nul_terminated l'"
  by (auto simp: linenoiseEditBackspace_def Let_def nul_terminated_def dest!: poke_peek
      split: if_splits sum.splits)

lemma ctrl_u_nul: "case_CTRL_U l = Inr l' \<Longrightarrow> nul_terminated l'"
  by (auto simp: case_CTRL_U_def nul_terminated_def dest!: poke_peek split: sum.splits)

lemma ctrl_k_nul: "case_CTRL_K l = Inr l' \<Longrightarrow> nul_terminated l'"
  by (auto simp: case_CTRL_K_def nul_terminated_def dest!: poke_peek split: sum.splits)

lemma ctrl_t_nul:
  assumes r: "case_CTRL_T l = Inr l'" and t: "nul_terminated l"
  shows "nul_terminated l'"
proof (cases "0 < pos l \<and> pos l < len l")
  case False
  with r t show ?thesis by (auto simp: case_CTRL_T_def)
next
  case True
  then have a: "unat (pos l) < unat (len l)" by (simp add: word_less_nat_alt)
  have b: "unat (pos l - 1) = unat (pos l) - 1" using True by (simp add: unat_pred)
  from t have c: "unat (len l) < length (buf l)" "buf l ! unat (len l) = NUL"
    by (auto simp: nul_terminated_def peek_def split: if_splits)
  from r True a b c show ?thesis
    by (auto simp: case_CTRL_T_def nul_terminated_def peek_def poke_def split: if_splits)
qed

lemma deleteprevword_nul:
  assumes w: "wf l" and t: "nul_terminated l" and r: "linenoiseEditDeletePrevWord l = Inr l'"
  shows "nul_terminated l'"
proof -
  note f = wf_nat[OF w]
  define b where "b = buf l"
  define P where "P = unat (pos l)"
  define L where "L = unat (len l)"
  have PL: "P \<le> L" and Lb: "L < length b" using f by (simp_all add: P_def L_def b_def)
  from t have nul: "b ! L = NUL"
    by (auto simp: nul_terminated_def peek_def b_def L_def split: if_splits)
  have "unat (pos l) \<le> length b" using PL Lb by (simp add: P_def)
  from bwd_spaces_ok[OF this] obtain p1 where p1: "bwd_spaces b (pos l) = Inr p1" "p1 \<le> pos l"
    by blast
  then have "unat p1 \<le> length b" using PL Lb by (simp add: word_le_nat_alt P_def)
  from bwd_word_ok[OF this] obtain p2 where p2: "bwd_word b p1 = Inr p2" "p2 \<le> p1" by blast
  define Q where "Q = unat p2"
  have QP: "Q \<le> P" using p1(2) p2(2) by (simp add: word_le_nat_alt Q_def P_def)
  have p2pos: "p2 \<le> pos l" using QP by (simp add: word_le_nat_alt Q_def P_def)
  have s1: "unat (len l - pos l) = L - P" unfolding L_def P_def
    by (rule unat_sub) (use w in \<open>simp add: wf_def\<close>)
  have s2: "unat (len l - pos l + 1) = L - P + 1"
    using unat_add_small[of "len l - pos l" 1] s1 f by (simp add: L_def)
  have s3: "unat (pos l - p2) = P - Q" unfolding P_def Q_def by (rule unat_sub[OF p2pos])
  have "pos l - p2 \<le> len l" using s3 PL by (simp add: word_le_nat_alt L_def[symmetric])
  then have s4: "unat (len l - (pos l - p2)) = L - (P - Q)"
    using s3 by (simp add: unat_sub L_def)
  define b' where "b' = take Q b @ take (L - P + 1) (drop P b) @ drop (Q + (L - P + 1)) b"
  have m: "memmove b p2 (pos l) (len l - pos l + 1) = Inr b'"
    using PL Lb QP s2 by (simp add: memmove_def b'_def P_def[symmetric] Q_def[symmetric])
  have l': "l' = l\<lparr>buf := b', pos := p2, len := len l - (pos l - p2)\<rparr>"
    using r p1 p2 m by (simp add: linenoiseEditDeletePrevWord_def Let_def b_def[symmetric])
  have idx: "L - (P - Q) = Q + (L - P)" using PL QP by simp
  have lq: "length (take Q b) = Q" using QP PL Lb by simp
  have "b' ! (Q + (L - P)) =
      (take Q b @ take (L - P + 1) (drop P b) @ drop (Q + (L - P + 1)) b) ! (length (take Q b) + (L - P))"
    by (simp only: lq b'_def)
  also have "\<dots> = (take (L - P + 1) (drop P b) @ drop (Q + (L - P + 1)) b) ! (L - P)"
    by (rule nth_append_length_plus)
  also have "\<dots> = b ! L" using PL Lb by (simp add: nth_append)
  finally have "b' ! (L - (P - Q)) = NUL" using nul idx by simp
  moreover have "L - (P - Q) < length b'" using PL QP Lb by (simp add: b'_def)
  ultimately show ?thesis by (simp add: nul_terminated_def l' peek_def s4)
qed

text \<open>
  C2.  \<^verbatim>\<open>linenoiseEditDeleteNextWord\<close> moves \<^verbatim>\<open>len - next_word_end\<close> bytes, one short of the
  terminator, and does not write one.  On \<^verbatim>\<open>"ab cd"\<close> with the cursor at 0 the array
  becomes \<^verbatim>\<open>" cdcd"\<close> with length 3, and \<^verbatim>\<open>buf[3]\<close> is \<^verbatim>\<open>'c'\<close>.
\<close>

theorem delete_next_word_loses_terminator:
  "wf line_ab_cd \<and> nul_terminated line_ab_cd \<and>
   linenoiseEditDeleteNextWord line_ab_cd = Inr (line_ab_cd\<lparr>buf := '' cdcd'' @ [NUL], len := 3\<rparr>) \<and>
   \<not> nul_terminated (line_ab_cd\<lparr>buf := '' cdcd'' @ [NUL], len := 3\<rparr>)"
  by (simp add: line_ab_cd_def linenoiseEditDeleteNextWord_def fwd_spaces.simps fwd_word.simps
        peek_def memmove_def SPC_def NUL_def wf_def nul_terminated_def)

subsection \<open>The history store\<close>

lemma drop_length_last: "drop (length zs) (z # zs) = [last (z # zs)]"
  by (induction zs arbitrary: z) simp_all

lemma entries_nonempty_iff:
  "hist_wf h \<Longrightarrow> entries h \<noteq> [] \<longleftrightarrow> history_len h \<noteq> 0"
  by (auto simp: hist_wf_def entries_def split: option.splits)

lemma length_entries: "hist_wf h \<Longrightarrow> int (length (entries h)) = history_len h"
  by (auto simp: hist_wf_def entries_def split: option.splits)

lemma newest_slot:
  assumes w: "hist_wf h" and n: "history_len h \<noteq> 0"
  shows "\<exists>a. history h = Some a \<and> slot a (history_len h - 1) = Inr (Some (last (entries h)))"
proof -
  from w n obtain a where a: "history h = Some a" "int (length a) = history_max_len h"
    "list_all (\<lambda>p. p \<noteq> None) (take (nat (history_len h)) a)"
    "0 < history_len h" "history_len h \<le> history_max_len h"
    by (auto simp: hist_wf_def split: option.splits)
  define N where "N = nat (history_len h)"
  have N: "0 < N" "N \<le> length a" "history_len h = int N" using a by (simp_all add: N_def)
  have lt: "N - 1 < length (take N a)" using N by simp
  have "take N a ! (N - 1) \<noteq> None"
    using a(3) lt unfolding N_def[symmetric] list_all_length by blast
  then obtain s where s: "a ! (N - 1) = Some s" using N by auto
  have ne: "take N a \<noteq> []" using N by auto
  have "last (take N a) = a ! (N - 1)" using N ne by (simp add: last_conv_nth min_def)
  then have "last (entries h) = the (a ! (N - 1))"
    using a(1) ne by (simp add: entries_def N_def[symmetric] last_map)
  with s N a(1) show ?thesis
    by (simp add: slot_def nat_diff_distrib')
qed

lemma add_noop:
  assumes w: "hist_wf h"
    and c: "history_max_len h = 0 \<or> (entries h \<noteq> [] \<and> last (entries h) = line)"
  shows "linenoiseHistoryAdd m s line h = Inr (0, h)"
proof (cases "history_max_len h = 0")
  case True
  then show ?thesis by (simp add: linenoiseHistoryAdd_def)
next
  case False
  with c have e: "entries h \<noteq> []" "last (entries h) = line" by simp_all
  then have n: "history_len h \<noteq> 0" using entries_nonempty_iff[OF w] by simp
  from newest_slot[OF w n] e(2) obtain a where
    "history h = Some a" "slot a (history_len h - 1) = Inr (Some line)" by auto
  with False n show ?thesis by (simp add: linenoiseHistoryAdd_def)
qed

lemma add_appends:
  assumes w: "hist_wf h" and m0: "history_max_len h \<noteq> 0"
    and nd: "\<not> (entries h \<noteq> [] \<and> last (entries h) = line)"
  shows "\<exists>h'. linenoiseHistoryAdd True True line h = Inr (1, h') \<and> hist_wf h'
           \<and> history_max_len h' = history_max_len h
           \<and> entries h' = (if history_len h = history_max_len h then tl (entries h) else entries h) @ [line]"
proof (cases "history h")
  case None
  with w have l0: "history_len h = 0" and mx: "0 < history_max_len h"
    using m0 by (auto simp: hist_wf_def)
  obtain k where k: "nat (history_max_len h) = Suc k" using mx by (cases "nat (history_max_len h)") auto
  show ?thesis using None l0 mx k
    by (simp add: linenoiseHistoryAdd_def slot_def set_slot_def hist_wf_def entries_def)
next
  case (Some a)
  with w have la: "int (length a) = history_max_len h" and l0: "0 \<le> history_len h"
    and lm: "history_len h \<le> history_max_len h"
    and al: "list_all (\<lambda>p. p \<noteq> None) (take (nat (history_len h)) a)"
    by (auto simp: hist_wf_def)
  define N where "N = nat (history_len h)"
  have N: "history_len h = int N" "N \<le> length a" using l0 lm la by (simp_all add: N_def)
  have apos: "0 < length a" using la m0 by auto
  have dup: "(if history_len h \<noteq> 0 then
                (case slot a (history_len h - 1) of Inl e \<Rightarrow> Inl e
                 | Inr None \<Rightarrow> Inl NullPointer
                 | Inr (Some s) \<Rightarrow> Inr (s = line))
              else Inr False) = Inr False"
  proof (cases "history_len h = 0")
    case True
    then show ?thesis by simp
  next
    case False
    from newest_slot[OF w False] Some
    have "slot a (history_len h - 1) = Inr (Some (last (entries h)))" by simp
    moreover have "last (entries h) \<noteq> line" using nd entries_nonempty_iff[OF w] False by simp
    ultimately show ?thesis using False by simp
  qed
  show ?thesis
  proof (cases "history_len h = history_max_len h")
    case full: True
    then have NL: "N = length a" using la N by simp
    have a2: "(tl a @ [last a])[length a - 1 := Some line] = tl a @ [Some line]"
      using apos by (cases a) (simp_all add: list_update_append)
    have nm: "nat (history_max_len h) = length a" by (simp add: la[symmetric])
    have nm1: "nat (history_max_len h - 1) = length a - 1" using nm by simp
    have mv: "take (length a - 1) (drop 1 a) @ drop (length a - 1) a = tl a @ [last a]"
      using apos by (cases a) (simp_all add: drop_length_last)
    have a3: "(drop (Suc 0) a @ drop (length a - Suc 0) a)[length a - Suc 0 := Some line]
        = tl a @ [Some line]"
      using a2 mv apos by (simp add: drop_Suc)
    have r: "linenoiseHistoryAdd True True line h =
        Inr (1, h\<lparr>history := Some (tl a @ [Some line]), history_len := history_len h\<rparr>)"
      using Some m0 dup full apos N NL a3 nm
      by (auto simp: linenoiseHistoryAdd_def slot_def set_slot_def nat_diff_distrib')
    have al2: "list_all (\<lambda>p. p \<noteq> None) (tl a)"
      using al NL apos unfolding N_def[symmetric] by (cases a) simp_all
    have ltl: "length (tl a @ [Some line]) = length a" using apos by simp
    have e1: "entries h = map the a" using Some NL by (simp add: entries_def N_def[symmetric])
    have nl: "nat (history_len h) = length a" using NL by (simp add: N_def)
    have tkf: "take (length a) (tl a @ [Some line]) = tl a @ [Some line]"
      using ltl by (metis order_refl take_all)
    have "hist_wf (h\<lparr>history := Some (tl a @ [Some line]), history_len := history_len h\<rparr>)"
      using l0 lm la ltl al2 by (simp add: hist_wf_def nl tkf)
    moreover have "entries (h\<lparr>history := Some (tl a @ [Some line]), history_len := history_len h\<rparr>)
        = tl (entries h) @ [line]"
    proof -
      have "entries (h\<lparr>history := Some (tl a @ [Some line]), history_len := history_len h\<rparr>)
          = map the (take (nat (history_len h)) (tl a @ [Some line]))"
        by (simp add: entries_def)
      also have "\<dots> = map the (tl a @ [Some line])" by (simp only: nl tkf)
      also have "\<dots> = tl (map the a) @ [line]" by (simp add: map_tl)
      finally show ?thesis by (simp only: e1)
    qed
    ultimately show ?thesis using r full by simp
  next
    case nf: False
    then have NL: "N < length a" using la N lm by simp
    have r: "linenoiseHistoryAdd True True line h =
        Inr (1, h\<lparr>history := Some (a[N := Some line]), history_len := history_len h + 1\<rparr>)"
      using Some m0 dup nf N NL
      by (simp add: linenoiseHistoryAdd_def set_slot_def)
    have n1: "nat (history_len h + 1) = Suc N" using N by simp
    have tk: "take (Suc N) (a[N := Some line]) = take N a @ [Some line]"
      using NL by (simp add: take_Suc_conv_app_nth)
    have "hist_wf (h\<lparr>history := Some (a[N := Some line]), history_len := history_len h + 1\<rparr>)"
      using l0 lm la nf al tk n1 unfolding N_def[symmetric] by (simp add: hist_wf_def)
    moreover have "entries (h\<lparr>history := Some (a[N := Some line]), history_len := history_len h + 1\<rparr>)
        = entries h @ [line]"
      using Some tk n1 by (simp add: entries_def N_def[symmetric])
    ultimately show ?thesis using r nf by simp
  qed
qed


text \<open>
  C5.  On a well-formed store \<^verbatim>\<open>linenoiseHistoryAdd\<close> returns 0 and changes nothing when
  \<^verbatim>\<open>history_max_len\<close> is 0 or the line equals the newest entry.  Otherwise, its allocations
  succeeding, it returns 1 and appends the line, after dropping the oldest entry when the
  store is full.  Adding the same line a second time changes nothing, and adding
  \<^verbatim>\<open>"x"\<close>, \<^verbatim>\<open>"y"\<close>, \<^verbatim>\<open>"x"\<close> to the initial store gives three entries.
\<close>

theorem history_add:
  assumes w: "hist_wf h"
  shows "(history_max_len h = 0 \<or> (entries h \<noteq> [] \<and> last (entries h) = line) \<longrightarrow>
            linenoiseHistoryAdd m s line h = Inr (0, h)) \<and>
         (history_max_len h \<noteq> 0 \<and> \<not> (entries h \<noteq> [] \<and> last (entries h) = line) \<longrightarrow>
            (\<exists>h'. linenoiseHistoryAdd True True line h = Inr (1, h') \<and> hist_wf h'
               \<and> history_max_len h' = history_max_len h
               \<and> entries h' =
                   (if history_len h = history_max_len h then tl (entries h) else entries h) @ [line])) \<and>
         (\<exists>r h1. linenoiseHistoryAdd True True line h = Inr (r, h1)
               \<and> linenoiseHistoryAdd m s line h1 = Inr (0, h1)) \<and>
         (\<exists>h3. history_adds hist_init [''x'', ''y'', ''x''] = Inr h3 \<and> history_len h3 = 3
               \<and> entries h3 = [''x'', ''y'', ''x''])"
proof (intro conjI impI)
  assume "history_max_len h = 0 \<or> (entries h \<noteq> [] \<and> last (entries h) = line)"
  then show "linenoiseHistoryAdd m s line h = Inr (0, h)" by (rule add_noop[OF w])
next
  assume "history_max_len h \<noteq> 0 \<and> \<not> (entries h \<noteq> [] \<and> last (entries h) = line)"
  then show "\<exists>h'. linenoiseHistoryAdd True True line h = Inr (1, h') \<and> hist_wf h'
               \<and> history_max_len h' = history_max_len h
               \<and> entries h' =
                   (if history_len h = history_max_len h then tl (entries h) else entries h) @ [line]"
    using add_appends[OF w] by blast
next
  show "\<exists>r h1. linenoiseHistoryAdd True True line h = Inr (r, h1)
               \<and> linenoiseHistoryAdd m s line h1 = Inr (0, h1)"
  proof (cases "history_max_len h = 0 \<or> (entries h \<noteq> [] \<and> last (entries h) = line)")
    case True
    from add_noop[OF w True] show ?thesis by blast
  next
    case False
    then have m0: "history_max_len h \<noteq> 0"
      and nd: "\<not> (entries h \<noteq> [] \<and> last (entries h) = line)" by blast+
    from add_appends[OF w m0 nd] obtain h' where h':
      "linenoiseHistoryAdd True True line h = Inr (1, h')" "hist_wf h'"
      "history_max_len h' = history_max_len h"
      "entries h' = (if history_len h = history_max_len h then tl (entries h) else entries h) @ [line]"
      by blast
    from h'(4) have "entries h' \<noteq> [] \<and> last (entries h') = line" by simp
    then have "linenoiseHistoryAdd m s line h' = Inr (0, h')"
      using add_noop[OF h'(2)] by blast
    with h'(1) show ?thesis by blast
  qed
next
  show "\<exists>h3. history_adds hist_init [''x'', ''y'', ''x''] = Inr h3 \<and> history_len h3 = 3
               \<and> entries h3 = [''x'', ''y'', ''x'']"
    by (simp add: hist_init_def linenoiseHistoryAdd_def slot_def set_slot_def entries_def
          numeral_eq_Suc)
qed

text \<open>C5 on a full store of two entries: the oldest goes.\<close>

theorem history_add_witness:
  "hist_wf full_store \<and> entries full_store = [''x'', ''y''] \<and>
   (\<exists>h'. linenoiseHistoryAdd True True ''z'' full_store = Inr (1, h') \<and> hist_wf h'
      \<and> history_max_len h' = 2 \<and> entries h' = [''y'', ''z''])"
proof -
  have h: "hist_wf full_store" by (simp add: full_store_def hist_wf_def)
  have e: "entries full_store = [''x'', ''y'']" by (simp add: full_store_def entries_def)
  have f: "history_len full_store = history_max_len full_store" "history_max_len full_store = 2"
    by (simp_all add: full_store_def)
  from history_add[OF h, of "''z''" True True] e f
  have "\<exists>h'. linenoiseHistoryAdd True True ''z'' full_store = Inr (1, h') \<and> hist_wf h'
      \<and> history_max_len h' = 2 \<and> entries h' = [''y'', ''z'']"
    by simp
  with h e show ?thesis by blast
qed

lemma full_store_add:
  "linenoiseHistoryAdd True True ''z'' full_store =
     Inr (1, \<lparr>history = Some [Some ''y'', Some ''z''], history_len = 2, history_max_len = 2\<rparr>)"
  by (simp add: full_store_def linenoiseHistoryAdd_def slot_def set_slot_def)

text \<open>
  C6.  \<^verbatim>\<open>linenoiseHistorySetMaxLen(n)\<close> returns 0 and changes nothing for \<open>n < 1\<close>.  For
  \<open>n \<ge> 1\<close> on a well-formed store of more than \<open>n\<close> entries, the allocation succeeding, it
  returns 1, keeps the last \<open>n\<close> entries in their order and makes \<open>n\<close> the new
  \<^verbatim>\<open>history_max_len\<close>.
\<close>

theorem history_set_max_len:
  "(n < 1 \<longrightarrow> linenoiseHistorySetMaxLen m n h = Inr (0, h)) \<and>
   (1 \<le> n \<and> hist_wf h \<and> n < history_len h \<longrightarrow>
      (\<exists>h'. linenoiseHistorySetMaxLen True n h = Inr (1, h') \<and> hist_wf h'
         \<and> history_max_len h' = n \<and> length (entries h') = nat n
         \<and> entries h' = drop (length (entries h) - nat n) (entries h)))"
proof (intro conjI impI)
  assume "n < 1"
  then show "linenoiseHistorySetMaxLen m n h = Inr (0, h)"
    by (simp add: linenoiseHistorySetMaxLen_def)
next
  assume a: "1 \<le> n \<and> hist_wf h \<and> n < history_len h"
  then have n1: "1 \<le> n" and w: "hist_wf h" and nl: "n < history_len h" by blast+
  from w nl n1 obtain a where a: "history h = Some a" "int (length a) = history_max_len h"
    "list_all (\<lambda>p. p \<noteq> None) (take (nat (history_len h)) a)"
    "history_len h \<le> history_max_len h"
    by (auto simp: hist_wf_def split: option.splits)
  define N where "N = nat (history_len h)"
  define k where "k = nat n"
  have N: "history_len h = int N" "N \<le> length a" using a nl n1 by (simp_all add: N_def)
  have k: "n = int k" "0 < k" "k < N" using n1 nl N by (simp_all add: k_def)
  define a' where "a' = take k (drop (N - k) a)"
  have la': "length a' = k" using k N by (simp add: a'_def)
  have d: "nat (history_len h - n) = N - k" using N k by simp
  have hl: "history_len h \<le> int (length a)" using N by simp
  have r: "linenoiseHistorySetMaxLen True n h =
      Inr (1, h\<lparr>history := Some a', history_max_len := n, history_len := n\<rparr>)"
    using a(1) n1 nl hl d
    by (simp add: linenoiseHistorySetMaxLen_def Let_def a'_def k_def[symmetric])
  have sub: "a' = drop (N - k) (take N a)"
    using k by (simp add: a'_def drop_take)
  have "list_all (\<lambda>p. p \<noteq> None) (drop (N - k) (take N a))"
    using a(3) unfolding N_def[symmetric] by (simp add: list_all_iff) (meson in_set_dropD)
  then have al: "list_all (\<lambda>p. p \<noteq> None) a'" by (simp add: sub)
  have e: "entries h = map the (take N a)" using a(1) by (simp add: entries_def N_def)
  have e': "entries (h\<lparr>history := Some a', history_max_len := n, history_len := n\<rparr>) = map the a'"
    using la' by (simp add: entries_def k_def[symmetric])
  have lenE: "length (entries h) = N" using e N by simp
  have w': "hist_wf (h\<lparr>history := Some a', history_max_len := n, history_len := n\<rparr>)"
    using n1 la' al k by (simp add: hist_wf_def k_def[symmetric])
  have "map the a' = drop (N - k) (entries h)" by (simp add: sub e drop_map)
  with r w' e' la' lenE k(3) show "\<exists>h'. linenoiseHistorySetMaxLen True n h = Inr (1, h') \<and> hist_wf h'
         \<and> history_max_len h' = n \<and> length (entries h') = nat n
         \<and> entries h' = drop (length (entries h) - nat n) (entries h)"
    by (simp add: k_def[symmetric])
qed

text \<open>C6 on the store of two entries, cut to one.\<close>

theorem history_set_max_len_witness:
  "hist_wf full_store \<and> entries full_store = [''x'', ''y''] \<and>
   (\<exists>h'. linenoiseHistorySetMaxLen True 1 full_store = Inr (1, h') \<and> hist_wf h'
      \<and> history_max_len h' = 1 \<and> entries h' = [''y''])"
proof -
  have h: "hist_wf full_store" by (simp add: full_store_def hist_wf_def)
  have e: "entries full_store = [''x'', ''y'']" by (simp add: full_store_def entries_def)
  have f: "1 < history_len full_store" by (simp add: full_store_def)
  from history_set_max_len[of 1 True full_store] h e f
  have "\<exists>h'. linenoiseHistorySetMaxLen True 1 full_store = Inr (1, h') \<and> hist_wf h'
      \<and> history_max_len h' = 1 \<and> entries h' = [''y'']"
    by auto
  with h e show ?thesis by blast
qed

text \<open>
  The stores of C5 and C6 are the well-formed ones.  The initial store is well formed, and
  both functions return a well-formed store from a well-formed one, whatever the
  allocator does; they never fault there.
\<close>

lemma hist_wf_init: "hist_wf hist_init"
  by (simp add: hist_wf_def hist_init_def)

lemma add_keeps_wf:
  assumes w: "hist_wf h"
  shows "\<exists>r h'. linenoiseHistoryAdd m s line h = Inr (r, h') \<and> hist_wf h'"
proof (cases "history_max_len h = 0 \<or> (entries h \<noteq> [] \<and> last (entries h) = line)")
  case True
  from add_noop[OF w True] w show ?thesis by blast
next
  case False
  then have m0: "history_max_len h \<noteq> 0" and nd: "\<not> (entries h \<noteq> [] \<and> last (entries h) = line)"
    by simp_all
  from add_appends[OF w m0 nd] obtain h1 where
    h1: "linenoiseHistoryAdd True True line h = Inr (1, h1)" "hist_wf h1" by blast
  show ?thesis
  proof (cases "history h")
    case None
    with w have l0: "history_len h = 0" "0 < history_max_len h" using m0 by (auto simp: hist_wf_def)
    show ?thesis
    proof (cases m)
      case False
      then show ?thesis using None m0 w by (simp add: linenoiseHistoryAdd_def)
    next
      case m: True
      show ?thesis
      proof (cases s)
        case True
        with m h1 show ?thesis by auto
      next
        case False
        then show ?thesis using None m l0
          by (simp add: linenoiseHistoryAdd_def hist_wf_def)
      qed
    qed
  next
    case (Some a)
    then have hh: "h\<lparr>history := Some a\<rparr> = h" by simp
    have e: "linenoiseHistoryAdd m False line h = Inr (0, h)"
    proof (cases "history_len h = 0")
      case True
      then show ?thesis using Some m0 hh by (simp add: linenoiseHistoryAdd_def)
    next
      case n: False
      from newest_slot[OF w n] Some
      have sl: "slot a (history_len h - 1) = Inr (Some (last (entries h)))" by simp
      have "last (entries h) \<noteq> line" using nd entries_nonempty_iff[OF w] n by simp
      then show ?thesis using Some m0 hh n sl by (simp add: linenoiseHistoryAdd_def)
    qed
    have t: "linenoiseHistoryAdd m True line h = linenoiseHistoryAdd True True line h"
      using Some by (simp add: linenoiseHistoryAdd_def)
    show ?thesis using e t h1 w by (cases s) auto
  qed
qed

lemma set_max_len_keeps_wf:
  assumes w: "hist_wf h"
  shows "\<exists>r h'. linenoiseHistorySetMaxLen m n h = Inr (r, h') \<and> hist_wf h'"
proof (cases "n < 1")
  case True
  then show ?thesis using w by (simp add: linenoiseHistorySetMaxLen_def)
next
  case n1: False
  show ?thesis
  proof (cases "history h")
    case None
    then show ?thesis using w n1
      by (auto simp: linenoiseHistorySetMaxLen_def hist_wf_def Let_def)
  next
    case (Some a)
    with w have la: "int (length a) = history_max_len h" "0 \<le> history_len h"
      "history_len h \<le> history_max_len h"
      "list_all (\<lambda>p. p \<noteq> None) (take (nat (history_len h)) a)"
      by (auto simp: hist_wf_def)
    show ?thesis
    proof (cases m)
      case False
      then show ?thesis using Some w n1 by (simp add: linenoiseHistorySetMaxLen_def)
    next
      case True
      define k where "k = (if n < history_len h then n else history_len h)"
      define A where "A = take (nat k) (drop (nat (history_len h - k)) a)"
      define R where "R = replicate (nat (n - k)) (None :: cstring option)"
      have k0: "0 \<le> k" "k \<le> history_len h" "k \<le> n" using n1 la by (auto simp: k_def)
      have "A = drop (nat (history_len h - k)) (take (nat (history_len h)) a)"
        using k0 by (simp add: A_def drop_take nat_diff_distrib)
      then have "set A \<subseteq> set (take (nat (history_len h)) a)" by (simp add: set_drop_subset)
      with la(4) have all: "list_all (\<lambda>p. p \<noteq> None) A" by (auto simp: list_all_iff)
      have lk: "length A = nat k" using k0 la by (simp add: A_def min_def) linarith
      then have tk: "take (nat k) (A @ R) = A" by simp
      have lar: "int (length (A @ R)) = n" using lk k0 by (simp add: R_def)
      have res: "linenoiseHistorySetMaxLen m n h =
                   Inr (1, h\<lparr>history := Some (A @ R), history_max_len := n, history_len := k\<rparr>)"
        using Some True n1 la k0
        unfolding linenoiseHistorySetMaxLen_def Let_def
        by (auto simp: k_def A_def R_def)
      show ?thesis unfolding res using k0 all tk lar by (simp add: hist_wf_def)
    qed
  qed
qed

subsection \<open>History navigation\<close>

lemma c_str_app:
  assumes "NUL \<notin> set s"
  shows "c_str (s @ NUL # r) = Inr s"
proof -
  have "takeWhile (\<lambda>c. c \<noteq> NUL) (s @ NUL # r) = s @ takeWhile (\<lambda>c. c \<noteq> NUL) (NUL # r)"
    by (rule takeWhile_append2) (use assms in auto)
  then show ?thesis by (simp add: c_str_def)
qed

lemma strncpy_short:
  assumes n: "length t < n" and d: "n \<le> length dst"
  shows "take n (t @ replicate n NUL) @ drop n dst =
         t @ NUL # (replicate (n - length t - 1) NUL @ drop n dst)"
proof -
  have "take n (t @ replicate n NUL) = t @ replicate (n - length t) NUL"
    using n by simp
  moreover have "replicate (n - length t) NUL = NUL # replicate (n - length t - 1) NUL"
    using n by (cases "n - length t") simp_all
  ultimately show ?thesis by simp
qed

lemma nav_step:
  assumes h: "history h = Some a" "1 < history_len h" "history_len h \<le> int (length a)"
    and i: "0 \<le> history_index l" "history_index l < history_len h"
    and s: "buf l = s @ NUL # r" "NUL \<notin> set s"
    and g: "length (buf l) = unat (buflen l) + 1"
    and hi: "hi = history_index l + (if dir = LINENOISE_HISTORY_PREV then 1 else - 1)"
      "0 \<le> hi" "hi < history_len h"
    and t: "(a[nat (history_len h - 1 - history_index l) := Some s]) ! nat (history_len h - 1 - hi) = Some t"
      "NUL \<notin> set t" "length t < unat (buflen l)"
  shows "\<exists>r'. linenoiseEditHistoryNext True (h, l) dir =
           Inr (h\<lparr>history := Some (a[nat (history_len h - 1 - history_index l) := Some s])\<rparr>,
                l\<lparr>buf := t @ NUL # r', history_index := hi, len := of_nat (length t),
                  pos := of_nat (length t)\<rparr>)
         \<and> length (t @ NUL # r') = length (buf l)"
proof -
  define n where "n = unat (buflen l)"
  define a1 where "a1 = a[nat (history_len h - 1 - history_index l) := Some s]"
  define r' where "r' = replicate (n - length t - 1) NUL @ drop n (buf l)"
  define B where "B = t @ NUL # r'"
  have n1: "length t < n" "n \<le> length (buf l)" using t(3) g by (simp_all add: n_def)
  have idx: "0 \<le> history_len h - 1 - history_index l"
    "history_len h - 1 - history_index l < int (length a)" using h i by simp_all
  have idx2: "0 \<le> history_len h - 1 - hi" "history_len h - 1 - hi < int (length a1)"
    using h hi by (simp_all add: a1_def)
  have sl: "slot a (history_len h - 1 - history_index l) =
      Inr (a ! nat (history_len h - 1 - history_index l))"
    using idx by (simp add: slot_def)
  have sd: "strdup True (buf l) = Inr (Some s)" using s by (simp add: strdup_def c_str_app)
  have ss: "set_slot a (history_len h - 1 - history_index l) (Some s) = Inr a1"
    using idx by (simp add: set_slot_def a1_def)
  have sl2: "slot a1 (history_len h - 1 - hi) = Inr (Some t)"
    using idx2 t(1) by (simp add: slot_def a1_def)
  have sc: "strncpy (buf l) t (buflen l) = Inr B"
    using n1 strncpy_short[OF n1] by (simp add: strncpy_def n_def[symmetric] B_def r'_def)
  have lB: "length B = length (buf l)" using n1 g by (simp add: B_def r'_def n_def)
  have b0: "buflen l \<noteq> 0" using n1 by (auto simp: n_def)
  have un: "unat (buflen l - 1) = n - 1" using b0 by (simp add: unat_minus_one n_def)
  have "B ! (n - 1) = NUL"
  proof (cases "n - 1 = length t")
    case True
    then show ?thesis by (simp add: B_def)
  next
    case False
    then have lt: "length t < n - 1" using n1 by simp
    have "B ! (n - 1) = (NUL # r') ! (n - 1 - length t)"
      using lt by (simp add: B_def nth_append)
    also have "\<dots> = r' ! (n - 1 - length t - 1)" using lt by simp
    also have "\<dots> = NUL"
    proof -
      have k: "n - 1 - length t - 1 < n - length t - 1" using lt by simp
      then have "r' ! (n - 1 - length t - 1) = replicate (n - length t - 1) NUL ! (n - 1 - length t - 1)"
        unfolding r'_def by (subst nth_append) simp
      also have "\<dots> = NUL" using k by (rule nth_replicate)
      finally show ?thesis .
    qed
    finally show ?thesis .
  qed
  then have "B[n - 1 := NUL] = B" by (metis list_update_id)
  moreover have "n - 1 < length B" using lB n1 by simp
  ultimately have pk: "poke B (buflen l - 1) NUL = Inr B" by (simp add: poke_def un)
  have st: "strlen B = Inr (of_nat (length t))"
    using t(2) by (simp add: strlen_def B_def c_str_app)
  have "linenoiseEditHistoryNext True (h, l) dir =
           Inr (h\<lparr>history := Some a1\<rparr>,
                l\<lparr>buf := B, history_index := hi, len := of_nat (length t),
                  pos := of_nat (length t)\<rparr>)"
    using h(1,2) sl sd ss sl2 sc pk st hi
    by (simp add: linenoiseEditHistoryNext_def Let_def)
  with lB show ?thesis unfolding B_def a1_def by blast
qed


lemma navigate_step:
  "linenoiseEditHistoryNext True hl d = Inr hl' \<Longrightarrow> navigate hl (d # ds) = navigate hl' ds"
  by simp

text \<open>
  C9.  The store holds \<^verbatim>\<open>"a"\<close>, \<^verbatim>\<open>"b"\<close> and a third slot for the line being edited, with
  any content \<open>x\<close> (the empty string that \<^verbatim>\<open>linenoiseEdit\<close> adds, until the first
  navigation); the line is \<^verbatim>\<open>"c"\<close>, in an array of at least three bytes, and
  \<^verbatim>\<open>history_index\<close> is 0.  Previous, previous, next, next returns the line \<^verbatim>\<open>"c"\<close>, with
  \<^verbatim>\<open>history_index\<close> 0 and the cursor at the end; the store holds \<^verbatim>\<open>"a"\<close>, \<^verbatim>\<open>"b"\<close> and, in
  the third slot, the line \<^verbatim>\<open>"c"\<close> that the first navigation saved.
\<close>

theorem history_navigation_round_trip:
  assumes hh: "history h = Some ([Some ''a'', Some ''b'', x] @ spare)" "history_len h = 3"
    and lb: "buf l = ''c'' @ NUL # rest" and lg: "length (buf l) = unat (buflen l) + 1"
    and l2: "2 \<le> unat (buflen l)" and li: "history_index l = 0"
  shows "\<exists>l'. navigate (h, l) [LINENOISE_HISTORY_PREV, LINENOISE_HISTORY_PREV,
                   LINENOISE_HISTORY_NEXT, LINENOISE_HISTORY_NEXT] =
                 Inr (h\<lparr>history := Some ([Some ''a'', Some ''b'', Some ''c''] @ spare)\<rparr>, l')
           \<and> c_str (buf l') = Inr ''c'' \<and> len l' = 1 \<and> pos l' = 1 \<and> history_index l' = 0
           \<and> buflen l' = buflen l \<and> length (buf l') = length (buf l)"
proof -
  define a0 where "a0 = [Some ''a'', Some ''b'', x] @ spare"
  define a where "a = [Some ''a'', Some ''b'', Some ''c''] @ spare"
  define h1 where "h1 = h\<lparr>history := Some a\<rparr>"
  have ha0: "history h = Some a0" using hh by (simp add: a0_def)
  have la0: "history_len h \<le> int (length a0)" using hh by (simp add: a0_def)
  have one0: "1 < history_len h" using hh by simp
  have ha: "history h1 = Some a" by (simp add: h1_def)
  have hl: "history_len h1 = 3" using hh by (simp add: h1_def)
  have la: "history_len h1 \<le> int (length a)" using hl by (simp add: a_def)
  have one: "1 < history_len h1" using hl by simp
  have nn: "NUL \<notin> set ''a''" "NUL \<notin> set ''b''" "NUL \<notin> set ''c''" by (simp_all add: NUL_def)
  have hid: "h1\<lparr>history := Some a\<rparr> = h1" by (simp add: h1_def)
  have sv: "h\<lparr>history := Some (a0[2 := Some ''c''])\<rparr> = h1" by (simp add: h1_def a0_def a_def)
  have nth0: "a0[2 := Some ''c''] ! Suc 0 = Some ''b''" by (simp add: a0_def)
  have upd: "a[2 := Some ''c''] = a" "a[Suc 0 := Some ''b''] = a" "a[0 := Some ''a''] = a"
    by (simp_all add: a_def)
  have nth: "a ! 0 = Some ''a''" "a ! Suc 0 = Some ''b''" "a ! 2 = Some ''c''"
    by (simp_all add: a_def)
  \<comment> \<open>previous: the line is saved in the third slot and becomes b\<close>
  from nav_step[OF ha0 one0 la0 _ _ lb nn(3) lg _ _ _ _ nn(2), of 1 LINENOISE_HISTORY_PREV]
  obtain r1 where s1: "linenoiseEditHistoryNext True (h, l) LINENOISE_HISTORY_PREV =
      Inr (h1, l\<lparr>buf := ''b'' @ NUL # r1, history_index := 1, len := 1, pos := 1\<rparr>)"
    "length (''b'' @ NUL # r1) = length (buf l)"
    using hh(2) li l2 nth0 sv by auto
  define l1 where "l1 = l\<lparr>buf := ''b'' @ NUL # r1, history_index := 1, len := 1, pos := 1\<rparr>"
  have b1: "buf l1 = ''b'' @ NUL # r1" "length (buf l1) = unat (buflen l1) + 1"
    "history_index l1 = 1" "buflen l1 = buflen l"
    using s1(2) lg by (simp_all add: l1_def)
  \<comment> \<open>previous: the line becomes a\<close>
  from nav_step[OF ha one la _ _ b1(1) nn(2) b1(2) _ _ _ _ nn(1), of 2 LINENOISE_HISTORY_PREV]
  obtain r2 where s2: "linenoiseEditHistoryNext True (h1, l1) LINENOISE_HISTORY_PREV =
      Inr (h1, l1\<lparr>buf := ''a'' @ NUL # r2, history_index := 2, len := 1, pos := 1\<rparr>)"
    "length (''a'' @ NUL # r2) = length (buf l1)"
    using hl b1(3,4) l2 upd nth hid by auto
  define l2' where "l2' = l1\<lparr>buf := ''a'' @ NUL # r2, history_index := 2, len := 1, pos := 1\<rparr>"
  have b2: "buf l2' = ''a'' @ NUL # r2" "length (buf l2') = unat (buflen l2') + 1"
    "history_index l2' = 2" "buflen l2' = buflen l"
    using s2(2) b1 by (simp_all add: l2'_def)
  \<comment> \<open>next: the line becomes b\<close>
  from nav_step[OF ha one la _ _ b2(1) nn(1) b2(2) _ _ _ _ nn(2), of 1 LINENOISE_HISTORY_NEXT]
  obtain r3 where s3: "linenoiseEditHistoryNext True (h1, l2') LINENOISE_HISTORY_NEXT =
      Inr (h1, l2'\<lparr>buf := ''b'' @ NUL # r3, history_index := 1, len := 1, pos := 1\<rparr>)"
    "length (''b'' @ NUL # r3) = length (buf l2')"
    using hl b2(3,4) l2 upd nth hid
    by (auto simp: LINENOISE_HISTORY_NEXT_def LINENOISE_HISTORY_PREV_def)
  define l3 where "l3 = l2'\<lparr>buf := ''b'' @ NUL # r3, history_index := 1, len := 1, pos := 1\<rparr>"
  have b3: "buf l3 = ''b'' @ NUL # r3" "length (buf l3) = unat (buflen l3) + 1"
    "history_index l3 = 1" "buflen l3 = buflen l"
    using s3(2) b2 by (simp_all add: l3_def)
  \<comment> \<open>next: the line becomes c, read from the third slot\<close>
  from nav_step[OF ha one la _ _ b3(1) nn(2) b3(2) _ _ _ _ nn(3), of 0 LINENOISE_HISTORY_NEXT]
  obtain r4 where s4: "linenoiseEditHistoryNext True (h1, l3) LINENOISE_HISTORY_NEXT =
      Inr (h1, l3\<lparr>buf := ''c'' @ NUL # r4, history_index := 0, len := 1, pos := 1\<rparr>)"
    "length (''c'' @ NUL # r4) = length (buf l3)"
    using hl b3(3,4) l2 upd nth hid
    by (auto simp: LINENOISE_HISTORY_NEXT_def LINENOISE_HISTORY_PREV_def)
  define l4 where "l4 = l3\<lparr>buf := ''c'' @ NUL # r4, history_index := 0, len := 1, pos := 1\<rparr>"
  have nav: "navigate (h, l) [LINENOISE_HISTORY_PREV, LINENOISE_HISTORY_PREV,
                   LINENOISE_HISTORY_NEXT, LINENOISE_HISTORY_NEXT] = Inr (h1, l4)"
    using s1(1) s2(1) s3(1) s4(1) by (simp add: l1_def l2'_def l3_def l4_def)
  have "c_str (buf l4) = Inr ''c''" using c_str_app[OF nn(3), of r4] by (simp add: l4_def)
  moreover have "len l4 = 1" "pos l4 = 1" "history_index l4 = 0" by (simp_all add: l4_def)
  moreover have "buflen l4 = buflen l" using b3(4) by (simp add: l4_def)
  moreover have "length (buf l4) = length (buf l)"
    using s4(2) b3(2,4) lg by (simp add: l4_def)
  ultimately show ?thesis using nav unfolding h1_def a_def by blast
qed

text \<open>
  C9 in the library's own sizes, on the store that two calls of \<^verbatim>\<open>linenoiseHistoryAdd\<close> and
  the call in \<^verbatim>\<open>linenoiseEdit\<close> leave: the third slot holds the empty string when the
  navigation begins and the line \<^verbatim>\<open>"c"\<close> when it ends.
\<close>

theorem history_navigation_round_trip_witness:
  "history_adds hist_init [''a'', ''b'', []] = Inr nav_hist \<and>
   (\<exists>l'. navigate (nav_hist, nav_state) [LINENOISE_HISTORY_PREV, LINENOISE_HISTORY_PREV,
                   LINENOISE_HISTORY_NEXT, LINENOISE_HISTORY_NEXT] =
                 Inr (nav_hist\<lparr>history :=
                        Some ([Some ''a'', Some ''b'', Some ''c''] @ replicate 97 None)\<rparr>, l')
           \<and> c_str (buf l') = Inr ''c'' \<and> len l' = 1 \<and> pos l' = 1 \<and> history_index l' = 0
           \<and> buflen l' = buflen nav_state \<and> length (buf l') = length (buf nav_state))"
proof -
  have r: "replicate 4095 NUL = NUL # replicate 4094 NUL"
    by (simp add: numeral_eq_Suc)
  have h0: "history_adds hist_init [''a'', ''b'', []] = Inr nav_hist"
    by code_simp
  have h1: "history nav_hist = Some ([Some ''a'', Some ''b'', Some []] @ replicate 97 None)"
    by (simp add: nav_hist_def)
  have h2: "history_len nav_hist = 3" by (simp add: nav_hist_def)
  have h3: "buf nav_state = ''c'' @ NUL # replicate 4094 NUL" by (simp add: nav_state_def r)
  have h4: "length (buf nav_state) = unat (buflen nav_state) + 1" by (simp add: nav_state_def)
  have h5: "2 \<le> unat (buflen nav_state)" by (simp add: nav_state_def)
  have h6: "history_index nav_state = 0" by (simp add: nav_state_def)
  from history_navigation_round_trip[OF h1 h2 h3 h4 h5 h6] h0 show ?thesis by simp
qed

subsection \<open>Rendering\<close>

lemma default_next: "nextCharLen default_encoding b n p = (1, 1)"
  by (simp add: default_encoding_def defaultNextCharLen_def)

lemma default_prev: "prevCharLen default_encoding b n p = (1, 1)"
  by (simp add: default_encoding_def defaultPrevCharLen_def)

lemma via_int_1: "via_int 1 = 1"
  by (rule via_int_small) simp

lemma columnPos_loop_default:
  "off \<le> p \<Longrightarrow> columnPos_loop default_encoding b n p off ret = Some (ret + (p - off))"
proof (induction k \<equiv> "unat p - unat off" arbitrary: off ret)
  case 0
  then have "off = p" by (simp add: word_le_nat_alt word_unat_eq_iff)
  then show ?case by (subst columnPos_loop.simps) simp
next
  case (Suc k)
  then have lt: "off < p" by (simp add: word_less_nat_alt)
  then have le: "off + 1 \<le> p" by unat_arith
  have u: "unat (off + 1) = unat off + 1" using lt by unat_arith
  have k: "k = unat p - unat (off + 1)" using Suc(2) u by simp
  have "columnPos_loop default_encoding b n p off ret =
        columnPos_loop default_encoding b n p (off + 1) (ret + 1)"
    using lt by (subst columnPos_loop.simps) (simp add: default_next)
  also have "\<dots> = Some (ret + 1 + (p - (off + 1)))" by (rule Suc(1)[OF k le])
  finally show ?case by simp
qed

lemma columnPos_default: "columnPos default_encoding b n p = Some p"
  using columnPos_loop_default[of 0 p b n 0] by (simp add: columnPos_def)

lemma clip_left_default:
  assumes "pcollen < cls" and "unat pcollen + unat p < 2 ^ 64"
  shows "\<exists>k\<le>unat p. clip_left default_encoding pcollen cls b n p =
            Some (drop k b, n - of_nat k, p - of_nat k)
          \<and> unat (p - of_nat k) = unat p - k
          \<and> unat pcollen + (unat p - k) < unat cls
          \<and> (k = 0 \<or> unat cls \<le> unat pcollen + (unat p - k) + 1)"
  using assms
proof (induction j \<equiv> "unat p" arbitrary: b n p)
  case 0
  then have p0: "p = 0" by (simp add: unat_eq_0)
  have nle: "\<not> cls \<le> pcollen" using 0(2) by (simp add: not_le)
  have "clip_left default_encoding pcollen cls b n 0 = Some (b, n, 0)"
    using nle by (subst clip_left.simps) (simp add: columnPos_default)
  with p0 0(2) show ?case by (intro exI[of _ 0]) (simp add: word_less_nat_alt)
next
  case (Suc j)
  have sum: "unat (pcollen + p) = unat pcollen + unat p"
    by (rule unat_add_small[OF Suc(4)])
  show ?case
  proof (cases "cls \<le> pcollen + p")
    case False
    then have "clip_left default_encoding pcollen cls b n p = Some (b, n, p)"
      by (subst clip_left.simps) (simp add: columnPos_default)
    moreover have "unat pcollen + unat p < unat cls"
      using False sum by (simp add: word_le_nat_alt)
    ultimately show ?thesis by (intro exI[of _ 0]) simp
  next
    case True
    have pp: "0 < p" using Suc(2) by (simp add: word_less_nat_alt)
    have u: "unat (p - 1) = unat p - 1" by (rule unat_pred[OF pp])
    have j: "j = unat (p - 1)" using Suc(2) u by simp
    have b: "unat pcollen + unat (p - 1) < 2 ^ 64" using Suc(4) u by simp
    from Suc(1)[OF j Suc(3) b, of "drop 1 b" "n - 1"] obtain k where k:
      "k \<le> unat (p - 1)"
      "clip_left default_encoding pcollen cls (drop 1 b) (n - 1) (p - 1) =
         Some (drop k (drop 1 b), n - 1 - of_nat k, p - 1 - of_nat k)"
      "unat (p - 1 - of_nat k) = unat (p - 1) - k"
      "unat pcollen + (unat (p - 1) - k) < unat cls"
      "k = 0 \<or> unat cls \<le> unat pcollen + (unat (p - 1) - k) + 1" by blast
    have "clip_left default_encoding pcollen cls b n p =
          clip_left default_encoding pcollen cls (drop 1 b) (n - 1) (p - 1)"
      using True by (subst clip_left.simps) (simp add: columnPos_default default_next via_int_1)
    with k have r: "clip_left default_encoding pcollen cls b n p =
          Some (drop (Suc k) b, n - of_nat (Suc k), p - of_nat (Suc k))"
      by (simp add: algebra_simps)
    have "unat (p - of_nat (Suc k)) = unat p - Suc k"
      using k(3) u by (simp add: algebra_simps)
    moreover have "Suc k \<le> unat p" using k(1) u pp Suc(2) by simp
    moreover have "unat pcollen + (unat p - Suc k) < unat cls" using k(4) u by simp
    moreover have "unat cls \<le> unat pcollen + (unat p - Suc k) + 1"
    proof (cases "k = 0")
      case k0: True
      have "unat cls \<le> unat pcollen + unat p" using True sum by (simp add: word_le_nat_alt)
      then show ?thesis using k0 pp Suc(2) by simp
    next
      case False
      then show ?thesis using k(1,5) u by simp
    qed
    ultimately show ?thesis using r by (intro exI[of _ "Suc k"]) simp
  qed
qed

lemma clip_right_default:
  assumes "pcollen \<le> cls" and "unat pcollen + unat n < 2 ^ 64"
  shows "\<exists>n'. clip_right default_encoding pcollen cls b n = Some n'
          \<and> unat n' = min (unat n) (unat cls - unat pcollen)"
  using assms
proof (induction j \<equiv> "unat n" arbitrary: n)
  case 0
  then have n0: "n = 0" by (simp add: unat_eq_0)
  have nlt: "\<not> cls < pcollen" using 0(2) by (simp add: not_less)
  have "clip_right default_encoding pcollen cls b 0 = Some 0"
    using nlt by (subst clip_right.simps) (simp add: columnPos_default)
  with n0 show ?case by simp
next
  case (Suc j)
  have sum: "unat (pcollen + n) = unat pcollen + unat n"
    by (rule unat_add_small[OF Suc(4)])
  have pc: "unat pcollen \<le> unat cls" using Suc(3) by (simp add: word_le_nat_alt)
  show ?case
  proof (cases "cls < pcollen + n")
    case False
    then have "clip_right default_encoding pcollen cls b n = Some n"
      by (subst clip_right.simps) (simp add: columnPos_default)
    moreover have "unat pcollen + unat n \<le> unat cls"
      using False sum by (simp add: word_less_nat_alt)
    ultimately show ?thesis using pc by (simp add: min_def)
  next
    case True
    have np: "0 < n" using Suc(2) by (simp add: word_less_nat_alt)
    have u: "unat (n - 1) = unat n - 1" by (rule unat_pred[OF np])
    have j: "j = unat (n - 1)" using Suc(2) u by simp
    have b: "unat pcollen + unat (n - 1) < 2 ^ 64" using Suc(4) u by simp
    from Suc(1)[OF j Suc(3) b] obtain n' where n':
      "clip_right default_encoding pcollen cls b (n - 1) = Some n'"
      "unat n' = min (unat (n - 1)) (unat cls - unat pcollen)" by blast
    have "clip_right default_encoding pcollen cls b n =
          clip_right default_encoding pcollen cls b (n - 1)"
      using True by (subst clip_right.simps) (simp add: columnPos_default default_prev)
    moreover have "unat cls < unat pcollen + unat n"
      using True sum by (simp add: word_less_nat_alt)
    then have "min (unat n - 1) (unat cls - unat pcollen) = min (unat n) (unat cls - unat pcollen)"
      using pc by (auto simp: min_def)
    ultimately show ?thesis using n' u by simp
  qed
qed

lemma unat_sub_of_nat:
  "k \<le> unat (n::64 word) \<Longrightarrow> unat (n - of_nat k) = unat n - k"
proof -
  assume a: "k \<le> unat n"
  then have u: "unat (of_nat k :: 64 word) = k" by (rule le_unat_uoi)
  then have "(of_nat k :: 64 word) \<le> n" using a by (simp add: word_le_nat_alt)
  then show ?thesis using u by (simp add: unat_sub)
qed

text \<open>
  The default encoding, on any line: the window starts \<open>k\<close> bytes into the line, not after
  the cursor and no further than the cursor requires; the cursor is inside it, in a column
  of the terminal; it is as long as the rest of the line and the terminal allow.
\<close>

lemma single_line_window_default:
  assumes pl: "pos l \<le> len l" and pw: "pcollen < cols l"
    and nb: "unat pcollen + unat (len l) < 2 ^ 64"
  shows "\<exists>b' n' p' k. refreshSingleLine_window default_encoding pcollen l = Some (b', n', p')
           \<and> b' = drop k (buf l) \<and> k \<le> unat (pos l) \<and> unat p' = unat (pos l) - k
           \<and> p' \<le> n' \<and> unat pcollen + unat p' < unat (cols l)
           \<and> (k = 0 \<or> unat (cols l) \<le> unat pcollen + unat p' + 1)
           \<and> unat n' = min (unat (len l) - k) (unat (cols l) - unat pcollen)
           \<and> columnPos default_encoding b' n' n' = Some n'"
proof -
  have pln: "unat (pos l) \<le> unat (len l)" using pl by (simp add: word_le_nat_alt)
  have pb: "unat pcollen + unat (pos l) < 2 ^ 64" using nb pln by simp
  from clip_left_default[OF pw pb, of "buf l" "len l"] obtain k where k:
    "k \<le> unat (pos l)"
    "clip_left default_encoding pcollen (cols l) (buf l) (len l) (pos l) =
       Some (drop k (buf l), len l - of_nat k, pos l - of_nat k)"
    "unat (pos l - of_nat k) = unat (pos l) - k"
    "unat pcollen + (unat (pos l) - k) < unat (cols l)"
    "k = 0 \<or> unat (cols l) \<le> unat pcollen + (unat (pos l) - k) + 1" by blast
  define n1 where "n1 = len l - of_nat k"
  have un1: "unat n1 = unat (len l) - k"
    unfolding n1_def by (rule unat_sub_of_nat) (use k(1) pln in simp)
  have pw': "pcollen \<le> cols l" using pw by simp
  have nb1: "unat pcollen + unat n1 < 2 ^ 64" using nb un1 by simp
  from clip_right_default[OF pw' nb1, of "drop k (buf l)"] obtain n' where n':
    "clip_right default_encoding pcollen (cols l) (drop k (buf l)) n1 = Some n'"
    "unat n' = min (unat n1) (unat (cols l) - unat pcollen)" by blast
  have r: "refreshSingleLine_window default_encoding pcollen l =
      Some (drop k (buf l), n', pos l - of_nat k)"
    using k(2) n'(1) by (simp add: refreshSingleLine_window_def n1_def)
  have c1: "pos l - of_nat k \<le> n'"
    using k(3,4) n'(2) un1 pln by (auto simp: word_le_nat_alt)
  have c2: "unat pcollen + unat (pos l - of_nat k) < unat (cols l)" using k(3,4) by simp
  have c3: "unat n' = min (unat (len l) - k) (unat (cols l) - unat pcollen)"
    using n'(2) un1 by simp
  have c4: "k = 0 \<or> unat (cols l) \<le> unat pcollen + unat (pos l - of_nat k) + 1"
    using k(3,5) by simp
  show ?thesis
    by (intro exI[of _ "drop k (buf l)"] exI[of _ n'] exI[of _ "pos l - of_nat k"] exI[of _ k]
          conjI r refl k(1) k(3) c1 c2 c4 c3 columnPos_default)
qed

lemma single_line_window_default_demo:
  "refreshSingleLine_window default_encoding 3 (line_of ''1234567890123456789012345'' 15 10) =
     Some (''0123456789012345'' @ [NUL], 7, 6)"
  by code_simp

lemma unat_of_nat64: "a < 2 ^ 64 \<Longrightarrow> unat (of_nat a :: 64 word) = a"
  by (simp add: unat_of_nat)

lemma of_nat_less64:
  "a < 2 ^ 64 \<Longrightarrow> b < 2 ^ 64 \<Longrightarrow> (of_nat a :: 64 word) < of_nat b \<longleftrightarrow> a < b"
  by (simp add: word_less_nat_alt unat_of_nat64)

lemma bytes_of_simps [simp]:
  "bytes_of [] = 0" "bytes_of (c # cs) = fst c + bytes_of cs"
  "bytes_of (xs @ ys) = bytes_of xs + bytes_of ys"
  by (simp_all add: bytes_of_def)

lemma width_of_simps [simp]:
  "width_of [] = 0" "width_of (c # cs) = snd c + width_of cs"
  "width_of (xs @ ys) = width_of xs + width_of ys"
  by (simp_all add: width_of_def)

lemma in_splits: "(xs, ys) \<in> set (splits (xs @ ys))"
proof -
  have "length xs \<in> set [0..<Suc (length (xs @ ys))]" by simp
  moreover have "(take (length xs) (xs @ ys), drop (length xs) (xs @ ys)) = (xs, ys)" by simp
  ultimately show ?thesis unfolding splits_def set_map by (metis (mono_tags, lifting) image_eqI)
qed

lemma reads_window:
  assumes "reads_chars enc b cs" and "cs = xs @ win @ ws"
  shows "window_ok enc (drop (bytes_of xs) b) win"
proof -
  have 1: "(xs, win @ ws) \<in> set (splits cs)" using in_splits[of xs "win @ ws"] assms(2) by simp
  have 2: "(win, ws) \<in> set (splits (win @ ws))" by (rule in_splits)
  from assms(1) 1 have "list_all (\<lambda>(win, ws'). window_ok enc (drop (bytes_of xs) b) win) (splits (win @ ws))"
    unfolding reads_chars_def list_all_iff by fast
  with 2 show ?thesis unfolding list_all_iff by fast
qed

lemma reads_next:
  assumes "reads_chars enc b cs" and "cs = xs @ (ys @ c # zs) @ ws"
  shows "nextCharLen enc (drop (bytes_of xs) b) (of_nat (bytes_of (ys @ c # zs))) (of_nat (bytes_of ys))
           = (of_nat (fst c), of_nat (snd c))"
proof -
  from reads_window[OF assms] have w: "window_ok enc (drop (bytes_of xs) b) (ys @ c # zs)" .
  have "(ys, c # zs) \<in> set (splits (ys @ c # zs))" by (rule in_splits)
  with w show ?thesis unfolding window_ok_def list_all_iff by fastforce
qed

lemma reads_prev:
  assumes "reads_chars enc b cs" and "cs = xs @ (ys @ [c]) @ ws"
  shows "fst (prevCharLen enc (drop (bytes_of xs) b) (of_nat (bytes_of (ys @ [c])))
                (of_nat (bytes_of (ys @ [c])))) = of_nat (fst c)"
proof -
  from reads_window[OF assms] have w: "window_ok enc (drop (bytes_of xs) b) (ys @ [c])" .
  then show ?thesis unfolding window_ok_def by simp
qed


text \<open>
  Encoding functions that return the same two lengths everywhere read every array as
  characters of these lengths: the default encoding reads any line as characters of one
  byte and one column.
\<close>

lemma splits_sets:
  assumes "(a, r) \<in> set (splits xs)"
  shows "set a \<subseteq> set xs" and "set r \<subseteq> set xs"
proof -
  from assms obtain i where "a = take i xs" "r = drop i xs" unfolding splits_def set_map by blast
  then show "set a \<subseteq> set xs" and "set r \<subseteq> set xs"
    by (simp_all add: set_take_subset set_drop_subset)
qed

lemma reads_chars_uniform:
  assumes nx: "\<And>w n p. nextCharLen enc w n p = (of_nat nb, of_nat nc)"
    and pv: "\<And>w n p. fst (prevCharLen enc w n p) = of_nat nb"
    and u: "set cs \<subseteq> {(nb, nc)}"
  shows "reads_chars enc b cs"
proof -
  have win: "window_ok enc w win" if s: "set win \<subseteq> {(nb, nc)}" for w win
  proof -
    have 1: "(case r of [] \<Rightarrow> True
               | c # zs \<Rightarrow> nextCharLen enc w (of_nat (bytes_of win)) (of_nat (bytes_of ys)) =
                            (of_nat (fst c), of_nat (snd c)))"
      if m: "(ys, r) \<in> set (splits win)" for ys r
    proof (cases r)
      case Nil
      then show ?thesis by simp
    next
      case (Cons c zs)
      then have "c \<in> set win" using splits_sets(2)[OF m] by auto
      then have "c = (nb, nc)" using s by auto
      then show ?thesis using Cons nx by simp
    qed
    have 2: "(case rev win of [] \<Rightarrow> True
      | c # zs \<Rightarrow> fst (prevCharLen enc w (of_nat (bytes_of win)) (of_nat (bytes_of win))) =
                   of_nat (fst c))"
    proof (cases "rev win")
      case Nil
      then show ?thesis by simp
    next
      case (Cons c zs)
      then have "c \<in> set (rev win)" by simp
      then have "c = (nb, nc)" using s by auto
      then show ?thesis using Cons pv by simp
    qed
    show ?thesis unfolding window_ok_def list_all_iff using 1 2 by auto
  qed
  show ?thesis
    unfolding reads_chars_def list_all_iff
  proof (intro ballI, clarify)
    fix xs rest wn ws
    assume a: "(xs, rest) \<in> set (splits cs)" and b: "(wn, ws) \<in> set (splits rest)"
    have "set wn \<subseteq> set rest" by (rule splits_sets(1)[OF b])
    also have "\<dots> \<subseteq> set cs" by (rule splits_sets(2)[OF a])
    finally have "set wn \<subseteq> {(nb, nc)}" using u by simp
    then show "window_ok enc (drop (bytes_of xs) b) wn" by (rule win)
  qed
qed

lemma reads_chars_default: "reads_chars default_encoding b (replicate n (1, 1))"
proof (rule reads_chars_uniform)
  show "\<And>w n p. nextCharLen default_encoding w n p = (of_nat 1, of_nat 1)"
    by (simp add: default_next)
  show "\<And>w n p. fst (prevCharLen default_encoding w n p) = of_nat 1"
    by (simp add: default_prev)
  show "set (replicate n (1, 1)) \<subseteq> {(1, 1)}" by auto
qed

lemma reads_chars_wide: "reads_chars wide_encoding b (replicate n (3, 2))"
proof (rule reads_chars_uniform)
  show "\<And>w n p. nextCharLen wide_encoding w n p = (of_nat 3, of_nat 2)"
    by (simp add: wide_encoding_def)
  show "\<And>w n p. fst (prevCharLen wide_encoding w n p) = of_nat 3"
    by (simp add: wide_encoding_def)
  show "set (replicate n (3, 2)) \<subseteq> {(3, 2)}" by auto
qed

lemma columnPos_loop_chars:
  assumes rc: "reads_chars enc b cs" and sz: "\<forall>c\<in>set cs. 1 \<le> fst c"
    and nb: "bytes_of cs < 2 ^ 64" and cs: "cs = xs @ (ys1 @ ys2 @ zs) @ ws"
  shows "columnPos_loop enc (drop (bytes_of xs) b) (of_nat (bytes_of (ys1 @ ys2 @ zs)))
           (of_nat (bytes_of (ys1 @ ys2))) (of_nat (bytes_of ys1)) (of_nat (width_of ys1)) =
         Some (of_nat (width_of (ys1 @ ys2)))"
  using cs
proof (induction ys2 arbitrary: ys1)
  case Nil
  show ?case by (subst columnPos_loop.simps) simp
next
  case (Cons c ys2)
  have c1: "1 \<le> fst c" using sz Cons.prems by simp
  have le: "bytes_of ys1 + fst c + bytes_of ys2 \<le> bytes_of cs" using Cons.prems by simp
  have lt: "(of_nat (bytes_of ys1) :: size_t) < of_nat (bytes_of (ys1 @ c # ys2))"
    using of_nat_less64[of "bytes_of ys1" "bytes_of (ys1 @ c # ys2)"] c1 le nb by simp
  have cs': "cs = xs @ (ys1 @ c # (ys2 @ zs)) @ ws" using Cons.prems by simp
  have nx: "nextCharLen enc (drop (bytes_of xs) b) (of_nat (bytes_of (ys1 @ c # ys2 @ zs)))
              (of_nat (bytes_of ys1)) = (of_nat (fst c), of_nat (snd c))"
    using reads_next[OF rc cs'] by simp
  have cs'': "cs = xs @ ((ys1 @ [c]) @ ys2 @ zs) @ ws" using Cons.prems by simp
  have ih: "columnPos_loop enc (drop (bytes_of xs) b) (of_nat (bytes_of ((ys1 @ [c]) @ ys2 @ zs)))
           (of_nat (bytes_of ((ys1 @ [c]) @ ys2))) (of_nat (bytes_of (ys1 @ [c])))
           (of_nat (width_of (ys1 @ [c]))) = Some (of_nat (width_of ((ys1 @ [c]) @ ys2)))"
    by (rule Cons.IH[OF cs''])
  have "columnPos_loop enc (drop (bytes_of xs) b) (of_nat (bytes_of (ys1 @ (c # ys2) @ zs)))
           (of_nat (bytes_of (ys1 @ c # ys2))) (of_nat (bytes_of ys1)) (of_nat (width_of ys1)) =
        columnPos_loop enc (drop (bytes_of xs) b) (of_nat (bytes_of ((ys1 @ [c]) @ ys2 @ zs)))
           (of_nat (bytes_of ((ys1 @ [c]) @ ys2))) (of_nat (bytes_of (ys1 @ [c])))
           (of_nat (width_of (ys1 @ [c])))"
    apply (subst columnPos_loop.simps)
    apply (simp only: lt if_True)
    using nx apply (simp add: algebra_simps)
    done
  with ih show ?case by simp
qed

lemma columnPos_chars:
  assumes rc: "reads_chars enc b cs" and sz: "\<forall>c\<in>set cs. 1 \<le> fst c"
    and nb: "bytes_of cs < 2 ^ 64" and cs: "cs = xs @ (ys @ zs) @ ws"
  shows "columnPos enc (drop (bytes_of xs) b) (of_nat (bytes_of (ys @ zs))) (of_nat (bytes_of ys)) =
         Some (of_nat (width_of ys))"
proof -
  have cs': "cs = xs @ ([] @ ys @ zs) @ ws" using cs by simp
  from columnPos_loop_chars[OF rc sz nb cs'] show ?thesis by (simp add: columnPos_def)
qed


lemma sum_cols:
  assumes "unat (P::size_t) + w < 2 ^ 64"
  shows "unat (P + of_nat w) = unat P + w"
proof -
  have "w < 2 ^ 64" using assms by simp
  then have u: "unat (of_nat w :: size_t) = w" by (rule unat_of_nat64)
  show ?thesis using unat_add_small[of P "of_nat w"] assms u by simp
qed

lemma clip_left_chars:
  assumes rc: "reads_chars enc b cs" and sz: "\<forall>c\<in>set cs. 1 \<le> fst c \<and> fst c < 2 ^ 31"
    and nb: "bytes_of cs < 2 ^ 64" and nw: "unat P + width_of cs < 2 ^ 64" and pw: "P < W"
    and cs: "cs = xs @ ys @ zs"
  shows "\<exists>g k. ys = g @ k \<and>
           clip_left enc P W (drop (bytes_of xs) b) (of_nat (bytes_of (ys @ zs))) (of_nat (bytes_of ys)) =
             Some (drop (bytes_of (xs @ g)) b, of_nat (bytes_of (k @ zs)), of_nat (bytes_of k)) \<and>
           unat P + width_of k < unat W \<and>
           (g = [] \<or> unat W \<le> unat P + width_of (last g # k))"
  using cs
proof (induction ys arbitrary: xs)
  case Nil
  have s1: "\<forall>c\<in>set cs. 1 \<le> fst c" using sz by simp
  have cs': "cs = xs @ ([] @ zs) @ []" using Nil by simp
  have cp: "columnPos enc (drop (bytes_of xs) b) (of_nat (bytes_of zs)) 0 = Some 0"
    using columnPos_chars[OF rc s1 nb cs'] by simp
  have nle: "\<not> W \<le> P" using pw by simp
  have "clip_left enc P W (drop (bytes_of xs) b) (of_nat (bytes_of zs)) 0 =
          Some (drop (bytes_of xs) b, of_nat (bytes_of zs), 0)"
    by (subst clip_left.simps) (simp add: cp nle)
  moreover have "unat P < unat W" using pw by (simp add: word_less_nat_alt)
  ultimately show ?case by simp
next
  case (Cons c ys)
  have s1: "\<forall>c\<in>set cs. 1 \<le> fst c" using sz by simp
  have cs': "cs = xs @ ((c # ys) @ zs) @ []" using Cons.prems by simp
  have cp: "columnPos enc (drop (bytes_of xs) b) (of_nat (bytes_of ((c # ys) @ zs)))
              (of_nat (bytes_of (c # ys))) = Some (of_nat (width_of (c # ys)))"
    by (rule columnPos_chars[OF rc s1 nb cs'])
  have wl: "unat P + width_of (c # ys) < 2 ^ 64" using nw Cons.prems by simp
  have un: "unat (P + of_nat (width_of (c # ys))) = unat P + width_of (c # ys)"
    by (rule sum_cols[OF wl])
  show ?case
  proof (cases "W \<le> P + of_nat (width_of (c # ys))")
    case False
    then have "clip_left enc P W (drop (bytes_of xs) b) (of_nat (bytes_of ((c # ys) @ zs)))
                 (of_nat (bytes_of (c # ys))) =
          Some (drop (bytes_of xs) b, of_nat (bytes_of ((c # ys) @ zs)), of_nat (bytes_of (c # ys)))"
      by (subst clip_left.simps) (simp only: cp Option.bind.simps if_False)
    moreover have "unat P + width_of (c # ys) < unat W"
      using False un by (simp add: word_le_nat_alt)
    ultimately show ?thesis by (intro exI[of _ "[]"] exI[of _ "c # ys"]) simp
  next
    case True
    have cc: "1 \<le> fst c" "fst c < 2 ^ 31" using sz Cons.prems by simp_all
    have cs0: "cs = xs @ ([] @ c # (ys @ zs)) @ []" using Cons.prems by simp
    have nx: "nextCharLen enc (drop (bytes_of xs) b) (of_nat (bytes_of ((c # ys) @ zs))) 0 =
                (of_nat (fst c), of_nat (snd c))"
      using reads_next[OF rc cs0] by simp
    have uc: "unat (of_nat (fst c) :: size_t) = fst c"
      using cc(2) by (intro unat_of_nat64) simp
    have vi: "via_int (of_nat (fst c)) = (of_nat (fst c) :: size_t)"
      by (rule via_int_small) (use cc(2) in \<open>simp add: uc\<close>)
    have cs1: "cs = (xs @ [c]) @ ys @ zs" using Cons.prems by simp
    from Cons.IH[OF cs1] obtain g k where gk: "ys = g @ k"
      "clip_left enc P W (drop (bytes_of (xs @ [c])) b) (of_nat (bytes_of (ys @ zs)))
         (of_nat (bytes_of ys)) =
       Some (drop (bytes_of ((xs @ [c]) @ g)) b, of_nat (bytes_of (k @ zs)), of_nat (bytes_of k))"
      "unat P + width_of k < unat W"
      "g = [] \<or> unat W \<le> unat P + width_of (last g # k)" by blast
    have step: "clip_left enc P W (drop (bytes_of xs) b) (of_nat (bytes_of ((c # ys) @ zs)))
                 (of_nat (bytes_of (c # ys))) =
          clip_left enc P W (drop (bytes_of (xs @ [c])) b) (of_nat (bytes_of (ys @ zs)))
            (of_nat (bytes_of ys))"
      apply (subst clip_left.simps)
      apply (simp only: cp Option.bind.simps True if_True nx fst_conv vi uc drop_drop)
      apply (simp add: add.commute)
      done
    have mn: "unat W \<le> unat P + width_of (last (c # g) # k)"
    proof (cases "g = []")
      case g: True
      then have "width_of (last (c # g) # k) = width_of (c # ys)" using gk(1) by simp
      then show ?thesis using True un by (simp add: word_le_nat_alt)
    next
      case False
      then show ?thesis using gk(4) by simp
    qed
    have "c # ys = (c # g) @ k" using gk(1) by simp
    moreover have "clip_left enc P W (drop (bytes_of xs) b) (of_nat (bytes_of ((c # ys) @ zs)))
                 (of_nat (bytes_of (c # ys))) =
        Some (drop (bytes_of (xs @ c # g)) b, of_nat (bytes_of (k @ zs)), of_nat (bytes_of k))"
      using step gk(2) by simp
    ultimately show ?thesis using gk(3) mn by blast
  qed
qed

lemma clip_right_chars:
  assumes rc: "reads_chars enc b cs" and sz: "\<forall>c\<in>set cs. 1 \<le> fst c"
    and nb: "bytes_of cs < 2 ^ 64" and nw: "unat P + width_of cs < 2 ^ 64"
    and cur: "unat P + width_of k \<le> unat W"
    and cs: "cs = xs @ (k @ post) @ ws"
  shows "\<exists>a h. post = a @ h \<and>
           clip_right enc P W (drop (bytes_of xs) b) (of_nat (bytes_of (k @ post))) =
             Some (of_nat (bytes_of (k @ a))) \<and>
           unat P + width_of (k @ a) \<le> unat W \<and>
           (h = [] \<or> unat W < unat P + width_of (k @ a @ [hd h]))"
  using cs
proof (induction post arbitrary: ws rule: rev_induct)
  case Nil
  have cs': "cs = xs @ (k @ []) @ ws" using Nil by simp
  have cp: "columnPos enc (drop (bytes_of xs) b) (of_nat (bytes_of k)) (of_nat (bytes_of k)) =
              Some (of_nat (width_of k))"
    using columnPos_chars[OF rc sz nb cs'] by simp
  have wl: "unat P + width_of k < 2 ^ 64" using nw Nil by simp
  have "\<not> W < P + of_nat (width_of k)"
    using cur sum_cols[OF wl] by (simp add: word_less_nat_alt)
  then have "clip_right enc P W (drop (bytes_of xs) b) (of_nat (bytes_of k)) =
          Some (of_nat (bytes_of k))"
    by (subst clip_right.simps) (simp add: cp)
  then show ?case using cur by simp
next
  case (snoc c post)
  have cs': "cs = xs @ ((k @ post @ [c]) @ []) @ ws" using snoc.prems by simp
  have cp: "columnPos enc (drop (bytes_of xs) b) (of_nat (bytes_of (k @ post @ [c])))
              (of_nat (bytes_of (k @ post @ [c]))) = Some (of_nat (width_of (k @ post @ [c])))"
    using columnPos_chars[OF rc sz nb cs'] by simp
  have wl: "unat P + width_of (k @ post @ [c]) < 2 ^ 64" using nw snoc.prems by simp
  have un: "unat (P + of_nat (width_of (k @ post @ [c]))) = unat P + width_of (k @ post @ [c])"
    by (rule sum_cols[OF wl])
  show ?case
  proof (cases "W < P + of_nat (width_of (k @ post @ [c]))")
    case False
    then have "clip_right enc P W (drop (bytes_of xs) b) (of_nat (bytes_of (k @ post @ [c]))) =
          Some (of_nat (bytes_of (k @ post @ [c])))"
      by (subst clip_right.simps) (simp only: cp Option.bind.simps if_False)
    moreover have "unat P + width_of (k @ post @ [c]) \<le> unat W"
      using False un by (simp add: word_less_nat_alt)
    ultimately show ?thesis by (intro exI[of _ "post @ [c]"] exI[of _ "[]"]) simp
  next
    case True
    have cs0: "cs = xs @ ((k @ post) @ [c]) @ ws" using snoc.prems by simp
    have pv: "fst (prevCharLen enc (drop (bytes_of xs) b) (of_nat (bytes_of (k @ post @ [c])))
                (of_nat (bytes_of (k @ post @ [c])))) = of_nat (fst c)"
      using reads_prev[OF rc cs0] by simp
    have cs1: "cs = xs @ (k @ post) @ (c # ws)" using snoc.prems by simp
    from snoc.IH[OF cs1] obtain a h where ah: "post = a @ h"
      "clip_right enc P W (drop (bytes_of xs) b) (of_nat (bytes_of (k @ post))) =
         Some (of_nat (bytes_of (k @ a)))"
      "unat P + width_of (k @ a) \<le> unat W"
      "h = [] \<or> unat W < unat P + width_of (k @ a @ [hd h])" by blast
    have step: "clip_right enc P W (drop (bytes_of xs) b) (of_nat (bytes_of (k @ post @ [c]))) =
          clip_right enc P W (drop (bytes_of xs) b) (of_nat (bytes_of (k @ post)))"
      apply (subst clip_right.simps)
      apply (simp only: cp Option.bind.simps True if_True pv)
      apply simp
      done
    have mx: "unat W < unat P + width_of (k @ a @ [hd (h @ [c])])"
    proof (cases "h = []")
      case h: True
      then have "width_of (k @ a @ [hd (h @ [c])]) = width_of (k @ post @ [c])"
        using ah(1) by simp
      then show ?thesis using True un by (simp add: word_less_nat_alt)
    next
      case False
      then show ?thesis using ah(4) by simp
    qed
    have "post @ [c] = a @ (h @ [c])" using ah(1) by simp
    moreover have "clip_right enc P W (drop (bytes_of xs) b) (of_nat (bytes_of (k @ post @ [c]))) =
        Some (of_nat (bytes_of (k @ a)))" using step ah(2) by simp
    moreover have "h @ [c] \<noteq> []" by simp
    ultimately show ?thesis using ah(3) mx by blast
  qed
qed


text \<open>
  C7.  The line is a sequence of characters, which the encoding functions read as such,
  the cursor is between two of them (after \<open>pre\<close>, before \<open>post\<close>) and the prompt is
  narrower than the terminal.  Then the two clipping loops of \<^verbatim>\<open>refreshSingleLine\<close> end.
  The window they leave starts after the characters \<open>gone\<close> and holds the characters
  \<open>before\<close> and \<open>after\<close> the cursor.  The cursor is in it, in a column of the terminal:
  \<open>P\<close> plus the width of \<open>before\<close>, as \<^verbatim>\<open>columnPos\<close> computes it, is less than \<open>W\<close>.  The
  width of the window is at most \<open>W - P\<close>.  No character is dropped that could stay: with
  the last character of \<open>gone\<close> the cursor would be at column \<open>W\<close> or further, and with
  the first character of \<open>hidden\<close> the window would be wider than \<open>W - P\<close>.
\<close>

theorem single_line_window:
  assumes rc: "reads_chars enc (buf l) (pre @ post)"
    and sz: "\<forall>c\<in>set (pre @ post). 1 \<le> fst c \<and> fst c < 2 ^ 31"
    and ln: "len l = of_nat (bytes_of (pre @ post))" and ps: "pos l = of_nat (bytes_of pre)"
    and nb: "bytes_of (pre @ post) < 2 ^ 64"
    and nw: "unat pcollen + width_of (pre @ post) < 2 ^ 64"
    and pw: "pcollen < cols l"
  shows "\<exists>gone before after hidden. pre = gone @ before \<and> post = after @ hidden \<and>
           refreshSingleLine_window enc pcollen l =
             Some (drop (bytes_of gone) (buf l), of_nat (bytes_of (before @ after)),
                   of_nat (bytes_of before)) \<and>
           columnPos enc (drop (bytes_of gone) (buf l)) (of_nat (bytes_of (before @ after)))
             (of_nat (bytes_of before)) = Some (of_nat (width_of before)) \<and>
           columnPos enc (drop (bytes_of gone) (buf l)) (of_nat (bytes_of (before @ after)))
             (of_nat (bytes_of (before @ after))) = Some (of_nat (width_of (before @ after))) \<and>
           unat pcollen + width_of before < unat (cols l) \<and>
           width_of (before @ after) \<le> unat (cols l) - unat pcollen \<and>
           (gone = [] \<or> unat (cols l) \<le> unat pcollen + width_of (last gone # before)) \<and>
           (hidden = [] \<or> unat (cols l) < unat pcollen + width_of (before @ after @ [hd hidden]))"
proof -
  have s1: "\<forall>c\<in>set (pre @ post). 1 \<le> fst c" using sz by simp
  have cs0: "pre @ post = [] @ pre @ post" by simp
  from clip_left_chars[OF rc sz nb nw pw cs0]
  have "\<exists>g k. pre = g @ k \<and>
    clip_left enc pcollen (cols l) (buf l) (of_nat (bytes_of (pre @ post))) (of_nat (bytes_of pre)) =
       Some (drop (bytes_of g) (buf l), of_nat (bytes_of (k @ post)), of_nat (bytes_of k)) \<and>
    unat pcollen + width_of k < unat (cols l) \<and>
    (g = [] \<or> unat (cols l) \<le> unat pcollen + width_of (last g # k))"
    by (simp only: append_Nil bytes_of_simps(1) drop_0)
  then obtain g k where gk: "pre = g @ k"
    "clip_left enc pcollen (cols l) (buf l) (of_nat (bytes_of (pre @ post))) (of_nat (bytes_of pre)) =
       Some (drop (bytes_of g) (buf l), of_nat (bytes_of (k @ post)), of_nat (bytes_of k))"
    "unat pcollen + width_of k < unat (cols l)"
    "g = [] \<or> unat (cols l) \<le> unat pcollen + width_of (last g # k)" by blast
  have cur: "unat pcollen + width_of k \<le> unat (cols l)" using gk(3) by simp
  have cs1: "pre @ post = g @ (k @ post) @ []" using gk(1) by simp
  from clip_right_chars[OF rc s1 nb nw cur cs1] obtain a h where ah: "post = a @ h"
    "clip_right enc pcollen (cols l) (drop (bytes_of g) (buf l)) (of_nat (bytes_of (k @ post))) =
       Some (of_nat (bytes_of (k @ a)))"
    "unat pcollen + width_of (k @ a) \<le> unat (cols l)"
    "h = [] \<or> unat (cols l) < unat pcollen + width_of (k @ a @ [hd h])" by blast
  have r: "refreshSingleLine_window enc pcollen l =
      Some (drop (bytes_of g) (buf l), of_nat (bytes_of (k @ a)), of_nat (bytes_of k))"
    unfolding refreshSingleLine_window_def ln ps gk(2) using ah(2) by simp
  have cs2: "pre @ post = g @ (k @ a) @ h" using gk(1) ah(1) by simp
  have c1: "columnPos enc (drop (bytes_of g) (buf l)) (of_nat (bytes_of (k @ a)))
             (of_nat (bytes_of k)) = Some (of_nat (width_of k))"
    by (rule columnPos_chars[OF rc s1 nb cs2])
  have cs3: "pre @ post = g @ ((k @ a) @ []) @ h" using gk(1) ah(1) by simp
  have c2: "columnPos enc (drop (bytes_of g) (buf l)) (of_nat (bytes_of (k @ a)))
             (of_nat (bytes_of (k @ a))) = Some (of_nat (width_of (k @ a)))"
    using columnPos_chars[OF rc s1 nb cs3] by simp
  have w: "width_of (k @ a) \<le> unat (cols l) - unat pcollen" using ah(3) by simp
  show ?thesis
    by (intro exI[of _ g] exI[of _ k] exI[of _ a] exI[of _ h] conjI gk(1) ah(1) r c1 c2 gk(3) w
          gk(4) ah(4))
qed

text \<open>
  C7 on the line of letters and wide characters, cursor at byte 8, prompt of 2 columns,
  terminal of 6: the window is \<^verbatim>\<open>b\<close>, a wide character and \<^verbatim>\<open>c\<close>, five bytes and four
  columns, with the cursor after its fourth byte, in column 5.
\<close>

theorem single_line_window_witness:
  "\<exists>gone before after hidden. mixed_pre = gone @ before \<and> mixed_post = after @ hidden \<and>
     refreshSingleLine_window utf8_3_encoding 2 (line_of mixed_line 8 6) =
       Some (drop (bytes_of gone) (buf (line_of mixed_line 8 6)),
             of_nat (bytes_of (before @ after)), of_nat (bytes_of before)) \<and>
     columnPos utf8_3_encoding (drop (bytes_of gone) (buf (line_of mixed_line 8 6)))
       (of_nat (bytes_of (before @ after))) (of_nat (bytes_of before)) =
       Some (of_nat (width_of before)) \<and>
     columnPos utf8_3_encoding (drop (bytes_of gone) (buf (line_of mixed_line 8 6)))
       (of_nat (bytes_of (before @ after))) (of_nat (bytes_of (before @ after))) =
       Some (of_nat (width_of (before @ after))) \<and>
     unat (2::size_t) + width_of before < unat (cols (line_of mixed_line 8 6)) \<and>
     width_of (before @ after) \<le> unat (cols (line_of mixed_line 8 6)) - unat (2::size_t) \<and>
     (gone = [] \<or>
      unat (cols (line_of mixed_line 8 6)) \<le> unat (2::size_t) + width_of (last gone # before)) \<and>
     (hidden = [] \<or>
      unat (cols (line_of mixed_line 8 6)) <
        unat (2::size_t) + width_of (before @ after @ [hd hidden]))"
proof -
  have h1: "reads_chars utf8_3_encoding (buf (line_of mixed_line 8 6)) (mixed_pre @ mixed_post)"
    by code_simp
  have h2: "\<forall>c\<in>set (mixed_pre @ mixed_post). 1 \<le> fst c \<and> fst c < 2 ^ 31"
    by (simp add: mixed_pre_def mixed_post_def)
  have h3: "len (line_of mixed_line 8 6) = of_nat (bytes_of (mixed_pre @ mixed_post))"
    by (simp add: line_of_def mixed_line_def mixed_pre_def mixed_post_def)
  have h4: "pos (line_of mixed_line 8 6) = of_nat (bytes_of mixed_pre)"
    by (simp add: line_of_def mixed_pre_def)
  have h5: "bytes_of (mixed_pre @ mixed_post) < 2 ^ 64"
    by (simp add: mixed_pre_def mixed_post_def)
  have h6: "unat (2::size_t) + width_of (mixed_pre @ mixed_post) < 2 ^ 64"
    by (simp add: mixed_pre_def mixed_post_def)
  have h7: "(2::size_t) < cols (line_of mixed_line 8 6)"
    by (simp add: line_of_def word_less_nat_alt)
  show ?thesis by (rule single_line_window[OF h1 h2 h3 h4 h5 h6 h7])
qed

lemma single_line_window_demo:
  "refreshSingleLine_window utf8_3_encoding 2 (line_of mixed_line 8 6) =
     Some ([CHR ''b'', CHR 0xE3, CHR 0x81, CHR 0x84, CHR ''c'', CHR 0xE3, CHR 0x81, CHR 0x86, NUL],
           5, 4)"
  by code_simp







subsection \<open>The key decoder\<close>

lemma esc_O_discarded:
  "linenoiseEdit_step enc ev h l (Byte (CHR 0x1B) # Byte (CHR ''O'') # rest) =
     Some (Inr (Continue h l rest))"
  by (simp add: linenoiseEdit_step_def case_ESC_def Let_def LINE_FEED_def ENTER_def CTRL_C_def
        BACKSPACE_def CTRL_D_def CTRL_T_def CTRL_B_def CTRL_F_def CTRL_P_def CTRL_N_def ESC_def)

lemma esc_bracket_H_moves_home:
  "linenoiseEdit_step enc ev h l (Byte (CHR 0x1B) # Byte (CHR ''['') # Byte (CHR ''H'') # rest) =
     Some (Inr (Continue h (linenoiseEditMoveHome l) rest))"
  by (simp add: linenoiseEdit_step_def case_ESC_def Let_def LINE_FEED_def ENTER_def CTRL_C_def
        BACKSPACE_def CTRL_D_def CTRL_T_def CTRL_B_def CTRL_F_def CTRL_P_def CTRL_N_def ESC_def)

lemma esc_bracket_F_moves_end:
  "linenoiseEdit_step enc ev h l (Byte (CHR 0x1B) # Byte (CHR ''['') # Byte (CHR ''F'') # rest) =
     Some (Inr (Continue h (linenoiseEditMoveEnd l) rest))"
  by (simp add: linenoiseEdit_step_def case_ESC_def Let_def LINE_FEED_def ENTER_def CTRL_C_def
        BACKSPACE_def CTRL_D_def CTRL_T_def CTRL_B_def CTRL_F_def CTRL_P_def CTRL_N_def ESC_def)

lemma plain_key_H:
  "linenoiseEdit_step default_encoding plain_env h ab_end [Byte (CHR ''H'')] =
     Some (Inr (Continue h
       (ab_end\<lparr>buf := ''abH'' @ [NUL, NUL, NUL, NUL, NUL], pos := 3, len := 3\<rparr>) []))"
  by (simp add: linenoiseEdit_step_def Let_def LINE_FEED_def ENTER_def CTRL_C_def
        BACKSPACE_def CTRL_D_def CTRL_T_def CTRL_B_def CTRL_F_def CTRL_P_def CTRL_N_def ESC_def
        CTRL_U_def CTRL_K_def CTRL_A_def CTRL_E_def CTRL_L_def CTRL_W_def
        linenoiseEditInsert_def insert_write_error_def columnPos_default plain_env_def ab_end_def
        memcpy_def poke_def word_le_nat_alt)

lemma plain_key_F:
  "linenoiseEdit_step default_encoding plain_env h ab_home [Byte (CHR ''F'')] =
     Some (Inr (Continue h
       (ab_home\<lparr>buf := ''Fab'' @ [NUL, NUL, NUL, NUL, NUL], pos := 1, len := 3\<rparr>) []))"
  by (simp add: linenoiseEdit_step_def Let_def LINE_FEED_def ENTER_def CTRL_C_def
        BACKSPACE_def CTRL_D_def CTRL_T_def CTRL_B_def CTRL_F_def CTRL_P_def CTRL_N_def ESC_def
        CTRL_U_def CTRL_K_def CTRL_A_def CTRL_E_def CTRL_L_def CTRL_W_def
        linenoiseEditInsert_def insert_write_error_def columnPos_default plain_env_def ab_home_def
        memcpy_def memmove_def poke_def word_le_nat_alt)

lemma at_end_of_input:
  "linenoiseEdit_loop enc ev h l [] = Some (Inr (Return (ucast (len l)) h l []))"
  by (subst linenoiseEdit_loop.simps) (simp add: linenoiseEdit_step_def)

text \<open>
  C4.  After \<^verbatim>\<open>ESC\<close> the decoder reads one byte; for \<^verbatim>\<open>'O'\<close>, which is neither \<^verbatim>\<open>'['\<close> nor the
  digit \<^verbatim>\<open>'0'\<close>, it takes the branch of the meta keys, finds none and ends the turn with the
  state unchanged and the third byte unread.  The next turn reads \<^verbatim>\<open>'H'\<close> or \<^verbatim>\<open>'F'\<close> as a
  plain key and inserts it: \<^verbatim>\<open>"ab"\<close> with the cursor at the end becomes \<^verbatim>\<open>"abH"\<close> with the
  cursor at 3, where move-home leaves \<^verbatim>\<open>"ab"\<close> with the cursor at 0; \<^verbatim>\<open>"ab"\<close> with the
  cursor at 0 becomes \<^verbatim>\<open>"Fab"\<close> with the cursor at 1, where move-end leaves \<^verbatim>\<open>"ab"\<close> with
  the cursor at 2.
\<close>

theorem esc_O_keys_are_not_decoded:
  "linenoiseEdit_step enc ev h l (Byte (CHR 0x1B) # Byte (CHR ''O'') # rest) =
     Some (Inr (Continue h l rest)) \<and>
   linenoiseEdit_loop default_encoding plain_env h ab_end (keys [CHR 0x1B, CHR ''O'', CHR ''H'']) =
     Some (Inr (Return 3 h (ab_end\<lparr>buf := ''abH'' @ [NUL, NUL, NUL, NUL, NUL], pos := 3, len := 3\<rparr>) [])) \<and>
   linenoiseEditMoveHome ab_end = ab_end\<lparr>pos := 0\<rparr> \<and>
   linenoiseEdit_loop default_encoding plain_env h ab_home (keys [CHR 0x1B, CHR ''O'', CHR ''F'']) =
     Some (Inr (Return 3 h (ab_home\<lparr>buf := ''Fab'' @ [NUL, NUL, NUL, NUL, NUL], pos := 1, len := 3\<rparr>) [])) \<and>
   linenoiseEditMoveEnd ab_home = ab_home\<lparr>pos := 2\<rparr>"
proof -
  have a: "linenoiseEdit_loop default_encoding plain_env h ab_end
      (keys [CHR 0x1B, CHR ''O'', CHR ''H'']) =
     Some (Inr (Return 3 h (ab_end\<lparr>buf := ''abH'' @ [NUL, NUL, NUL, NUL, NUL], pos := 3, len := 3\<rparr>) []))"
    apply (simp add: keys_def)
    apply (subst linenoiseEdit_loop.simps)
    apply (simp add: esc_O_discarded)
    apply (subst linenoiseEdit_loop.simps)
    apply (simp add: plain_key_H at_end_of_input)
    done
  have b: "linenoiseEdit_loop default_encoding plain_env h ab_home
      (keys [CHR 0x1B, CHR ''O'', CHR ''F'']) =
     Some (Inr (Return 3 h (ab_home\<lparr>buf := ''Fab'' @ [NUL, NUL, NUL, NUL, NUL], pos := 1, len := 3\<rparr>) []))"
    apply (simp add: keys_def)
    apply (subst linenoiseEdit_loop.simps)
    apply (simp add: esc_O_discarded)
    apply (subst linenoiseEdit_loop.simps)
    apply (simp add: plain_key_F at_end_of_input)
    done
  have c: "linenoiseEditMoveHome ab_end = ab_end\<lparr>pos := 0\<rparr>"
    by (simp add: linenoiseEditMoveHome_def ab_end_def)
  have d: "linenoiseEditMoveEnd ab_home = ab_home\<lparr>pos := 2\<rparr>"
    by (simp add: linenoiseEditMoveEnd_def ab_home_def)
  from a b c d esc_O_discarded show ?thesis by blast
qed

subsection \<open>Whole sessions\<close>

lemmas key_defs = LINE_FEED_def ENTER_def CTRL_C_def BACKSPACE_def CTRL_D_def CTRL_T_def
  CTRL_B_def CTRL_F_def CTRL_P_def CTRL_N_def ESC_def CTRL_U_def CTRL_K_def CTRL_A_def
  CTRL_E_def CTRL_L_def CTRL_W_def

lemmas turn_defs = linenoiseEdit_step_def case_ESC_def on_line_def Let_def key_defs
  linenoiseEditInsert_def insert_write_error_def columnPos_default plain_env_def memcpy_def memmove_def poke_def peek_def
  word_le_nat_alt word_less_nat_alt linenoiseEditMoveHome_def linenoiseEditDeleteNextWord_def
  linenoiseEditMoveWordStart_def fwd_spaces.simps fwd_word.simps SPC_def NUL_def unat_m1

text \<open>
  The keys \<^verbatim>\<open>a b space c d\<close>, Ctrl-A, \<^verbatim>\<open>ESC d\<close>: the line shown is \<^verbatim>\<open>" cd"\<close> (length 3), the
  string left in the array, which \<^verbatim>\<open>linenoise\<close> copies for its caller, is \<^verbatim>\<open>" cdcd"\<close>.
\<close>

lemma session_delete_next_word:
  "linenoiseEdit_loop default_encoding plain_env h empty_line_8
     (keys (''ab cd'' @ [CHR 0x01, CHR 0x1B, CHR ''d''])) =
     Some (Inr (Return 3 h (empty_line_8\<lparr>buf := '' cdcd'' @ [NUL, NUL, NUL], len := 3\<rparr>) []))"
  apply (simp add: keys_def empty_line_8_def)
  apply (subst linenoiseEdit_loop.simps, simp add: turn_defs)+
  done

lemma session_delete_next_word_string:
  "c_str ('' cdcd'' @ [NUL, NUL, NUL]) = Inr '' cdcd''"
  by (simp add: c_str_def NUL_def)

text \<open>The keys \<^verbatim>\<open>a\<close>, Ctrl-A, \<^verbatim>\<open>ESC b\<close>: the read before the array.\<close>

lemma session_move_word_start:
  "linenoiseEdit_loop default_encoding plain_env h empty_line_8
     (keys (''a'' @ [CHR 0x01, CHR 0x1B, CHR ''b''])) = Some (Inl OutOfBounds)"
  apply (simp add: keys_def empty_line_8_def)
  apply (subst linenoiseEdit_loop.simps, simp add: turn_defs)+
  done

text \<open>
  The store holds \<^verbatim>\<open>"a"\<close> and \<^verbatim>\<open>"b"\<close>; \<^verbatim>\<open>linenoiseEdit\<close> adds the empty string for the line
  to come.  The keys \<^verbatim>\<open>c\<close>, Ctrl-P, Ctrl-P, Ctrl-N, Ctrl-N: the line is \<^verbatim>\<open>"c"\<close> again, with
  the cursor at its end, and the third slot of the store holds it.
\<close>

lemma ab_store_added: "history_adds hist_init [''a'', ''b''] = Inr ab_store"
  by code_simp

lemma replicate_98: "replicate 98 None = None # replicate 97 (None :: cstring option)"
  by (simp add: numeral_eq_Suc)

lemma replicate_num: "replicate (numeral k) x = x # replicate (pred_numeral k) x"
  by (simp add: numeral_eq_Suc)

lemma session_history_round_trip:
  "linenoiseEdit default_encoding plain_env ab_store [NUL, NUL, NUL, NUL, NUL, NUL, NUL, NUL] 8 80
     (keys [CHR ''c'', CHR 0x10, CHR 0x10, CHR 0x0E, CHR 0x0E]) =
   Some (Inr (Return 1
     (ab_store\<lparr>history := Some ([Some ''a'', Some ''b'', Some ''c''] @ replicate 97 None),
        history_len := 3\<rparr>)
     (empty_line_8\<lparr>buf := ''c'' @ [NUL, NUL, NUL, NUL, NUL, NUL, NUL], pos := 1, len := 1\<rparr>) []))"
  apply (simp add: linenoiseEdit_def linenoiseEdit_init_def poke_def linenoiseHistoryAdd_def
     ab_store_def slot_def set_slot_def replicate_98 plain_env_def keys_def)
  apply (subst linenoiseEdit_loop.simps, simp add: turn_defs on_history_def
      linenoiseEditHistoryNext_def slot_def set_slot_def strdup_def c_str_def strncpy_def
      strlen_def LINENOISE_HISTORY_PREV_def LINENOISE_HISTORY_NEXT_def empty_line_8_def
      replicate_num)+
  done

text \<open>
  The direct write of Insert.  Where it fails \<^verbatim>\<open>linenoiseEdit\<close> returns -1 with the byte
  in the line.  It is not made in multi-line mode, on a line that fills the row, or with
  the cursor inside the line: there the line is refreshed and the loop goes on.
\<close>

lemma direct_write_fails:
  "linenoiseEdit_step default_encoding (plain_env\<lparr>insert_write_fails := True\<rparr>) h ab_end
     [Byte (CHR ''H'')] =
   Some (Inr (Return (- 1) h
     (ab_end\<lparr>buf := ''abH'' @ [NUL, NUL, NUL, NUL, NUL], pos := 3, len := 3\<rparr>) []))"
  by (simp add: turn_defs ab_end_def)

lemma no_direct_write_in_multi_line_mode:
  "linenoiseEdit_step default_encoding (plain_env\<lparr>insert_write_fails := True, mlmode := True\<rparr>) h
     ab_end [Byte (CHR ''H'')] =
   Some (Inr (Continue h
     (ab_end\<lparr>buf := ''abH'' @ [NUL, NUL, NUL, NUL, NUL], pos := 3, len := 3\<rparr>) []))"
  by (simp add: turn_defs ab_end_def)

lemma no_direct_write_on_a_full_row:
  "linenoiseEdit_step default_encoding (plain_env\<lparr>insert_write_fails := True\<rparr>) h
     (ab_end\<lparr>cols := 5\<rparr>) [Byte (CHR ''H'')] =
   Some (Inr (Continue h
     (ab_end\<lparr>buf := ''abH'' @ [NUL, NUL, NUL, NUL, NUL], pos := 3, len := 3, cols := 5\<rparr>) []))"
  by (simp add: turn_defs ab_end_def)

lemma no_direct_write_inside_the_line:
  "linenoiseEdit_step default_encoding (plain_env\<lparr>insert_write_fails := True\<rparr>) h ab_home
     [Byte (CHR ''F'')] =
   Some (Inr (Continue h
     (ab_home\<lparr>buf := ''Fab'' @ [NUL, NUL, NUL, NUL, NUL], pos := 1, len := 3\<rparr>) []))"
  by (simp add: turn_defs ab_home_def)

end
